theory Spec2Isabelle
  imports Complex_Main
begin

section \<open>Tensors along the height axis\<close>

text \<open>
  Every tensor of \<^verbatim>\<open>waveflow/modules.py\<close> has the layout \<^verbatim>\<open>BxCxHxW\<close>, and every
  operation of the module that is not a call into a convolution works along the
  height axis (dimension 2): \<^verbatim>\<open>torch.flip(x, (2,))\<close>, \<^verbatim>\<open>torch.split(x, n, 2)\<close>,
  \<^verbatim>\<open>torch.cat(xs, 2)\<close>, the slices \<^verbatim>\<open>z[:,:,:step+1,:]\<close> and the row assignment
  \<^verbatim>\<open>z[:,:,step,:] = v\<close>. A tensor is therefore modelled as the list of its height
  slices \<^verbatim>\<open>x[:,:,i,:]\<close> for \<^verbatim>\<open>i = 0 .. H-1\<close>; its height \<^verbatim>\<open>x.shape[2]\<close> is the length
  of that list. A slice holds the \<^verbatim>\<open>BxCxW\<close> entries at one height index.
\<close>

datatype error = RuntimeError | ValueError | IndexError | ZeroDivisionError | TypeError

type_synonym 's tensor = "'s list"

subsection \<open>torch.split with an integer split size\<close>

function chunks :: "nat \<Rightarrow> 'a list \<Rightarrow> 'a list list" where
  "chunks n xs = (if n = 0 \<or> xs = [] then [] else take n xs # chunks n (drop n xs))"
  by pat_completeness auto
termination
  by (relation "measure (\<lambda>(n, xs). length xs)") auto

declare chunks.simps [simp del]

text \<open>
  \<^verbatim>\<open>torch.split(x, n, 2)\<close>: chunks of \<^verbatim>\<open>n\<close> slices, the last one shorter when \<^verbatim>\<open>n\<close>
  does not divide the height. A split size of zero is accepted only for a tensor of
  height zero, and a tensor of height zero always gives one (empty) chunk.
\<close>

definition torch_split :: "'s tensor \<Rightarrow> nat \<Rightarrow> error + 's tensor list" where
  "torch_split x n =
     (if n = 0 \<and> x \<noteq> [] then Inl RuntimeError
      else if x = [] then Inr [[]]
      else Inr (chunks n x))"

subsection \<open>The two time-axis permutations\<close>

text \<open>\<^verbatim>\<open>full_flip\<close>: \<^verbatim>\<open>torch.flip(x, (2,))\<close>.\<close>

definition full_flip :: "'s tensor \<Rightarrow> 's tensor" where
  "full_flip x = rev x"

text \<open>
  \<^verbatim>\<open>half_flip\<close>: the tuple returned by the split is unpacked into exactly two
  names, which raises \<^verbatim>\<open>ValueError\<close> for any other number of chunks.
\<close>

definition half_flip :: "'s tensor \<Rightarrow> error + 's tensor" where
  "half_flip x =
     (case torch_split x (length x div 2) of
        Inl e \<Rightarrow> Inl e
      | Inr [x1, x2] \<Rightarrow> Inr (rev x1 @ rev x2)
      | Inr _ \<Rightarrow> Inl ValueError)"

subsection \<open>Which permutation goes with which flow\<close>

datatype flip = Full | Half

text \<open>
  \<^verbatim>\<open>WaveFlow.forward\<close>, line 325: after flow \<^verbatim>\<open>i\<close> of \<^verbatim>\<open>enumerate(self.flows)\<close> the
  signal is flipped by \<^verbatim>\<open>full_flip(x) if i < 4 else half_flip(x)\<close>.
\<close>

definition forward_flip :: "nat \<Rightarrow> flip" where
  "forward_flip i = (if i < 4 then Full else Half)"

text \<open>
  \<^verbatim>\<open>WaveFlow.synthesize\<close> and \<^verbatim>\<open>synthesize_fast\<close>, lines 368 and 418: at position \<^verbatim>\<open>i\<close>
  of \<^verbatim>\<open>enumerate(self.flows[::-1])\<close> the signal is flipped by
  \<^verbatim>\<open>full_flip(z) if i > 4 else half_flip(z)\<close> before the flow is inverted.
\<close>

definition synthesize_flip :: "nat \<Rightarrow> flip" where
  "synthesize_flip i = (if i > 4 then Full else Half)"

text \<open>
  Flow \<^verbatim>\<open>j\<close> of a model with \<^verbatim>\<open>n_flow\<close> flows stands at position \<^verbatim>\<open>n_flow - 1 - j\<close>
  of the reversed list.
\<close>

definition reversed_position :: "nat \<Rightarrow> nat \<Rightarrow> nat" where
  "reversed_position n_flow j = n_flow - 1 - j"

definition apply_flip :: "flip \<Rightarrow> 's tensor \<Rightarrow> error + 's tensor" where
  "apply_flip p x = (case p of Full \<Rightarrow> Inr (full_flip x) | Half \<Rightarrow> half_flip x)"

section \<open>Model dimensions\<close>

text \<open>
  The module \<^verbatim>\<open>waveflow/hparams.py\<close> supplies the sizes \<^verbatim>\<open>hp.kernel_size\<close>,
  \<^verbatim>\<open>hp.cycle_size\<close>, \<^verbatim>\<open>hp.n_layer\<close>, \<^verbatim>\<open>hp.n_flow\<close> and \<^verbatim>\<open>hp.h\<close>. They are
  parameters of every definition that reads them; sizes and counts are natural
  numbers, and arithmetic on them is done in \<^typ>\<open>int\<close> where Python could leave
  the naturals.
\<close>

text \<open>
  \<^verbatim>\<open>ResidualStack.__init__\<close>, line 128: one block per entry of
  \<^verbatim>\<open>np.arange(hp.n_layer) % hp.cycle_size\<close>, with dilation \<^verbatim>\<open>2**i\<close>. The entries are
  numpy 64-bit integers: the remainder by zero is zero (numpy warns and goes on),
  and the power wraps around in two's complement.
\<close>

definition int64_wrap :: "int \<Rightarrow> int" where
  "int64_wrap v = (v + 2 ^ 63) mod 2 ^ 64 - 2 ^ 63"

definition np_mod :: "nat \<Rightarrow> nat \<Rightarrow> nat" where
  "np_mod i m = (if m = 0 then 0 else i mod m)"

definition stack_dilations :: "nat \<Rightarrow> nat \<Rightarrow> int list" where
  "stack_dilations cycle_size n_layer =
     map (\<lambda>i. int64_wrap (2 ^ np_mod i cycle_size)) [0..<n_layer]"

text \<open>
  \<^verbatim>\<open>WaveFlow.__init__\<close>, line 261, on Python integers: \<^verbatim>\<open>i % hp.cycle_size\<close> raises
  \<^verbatim>\<open>ZeroDivisionError\<close> for a zero cycle size as soon as the comprehension has one
  element.
\<close>

definition receptive_field :: "nat \<Rightarrow> nat \<Rightarrow> nat \<Rightarrow> error + int" where
  "receptive_field kernel_size cycle_size n_layer =
     (if cycle_size = 0 \<and> 0 < n_layer then Inl ZeroDivisionError
      else Inr ((int kernel_size - 1)
                  * sum_list (map (\<lambda>i. 2 ^ (i mod cycle_size)) [0..<n_layer]) + 1))"

section \<open>Squeezing a signal into the grid\<close>

text \<open>
  Lines 304, 305, 362 and 412:
  \<^verbatim>\<open>c.reshape(c.shape[0], c.shape[1], c.shape[-1] // hp.h, -1).transpose(2,3)\<close>.
  The input is a \<^verbatim>\<open>BxCxL\<close> nested list. The floor division raises for \<^verbatim>\<open>hp.h = 0\<close>;
  \<^verbatim>\<open>reshape\<close> raises \<^verbatim>\<open>RuntimeError\<close> when the product of the given extents is zero
  or does not divide the number of elements, and otherwise lays the \<^verbatim>\<open>L\<close> samples
  of each channel out row by row in \<^verbatim>\<open>L // hp.h\<close> rows; \<^verbatim>\<open>transpose(2,3)\<close> then swaps
  rows and columns. The result is a \<^verbatim>\<open>BxCxHxW\<close> nested list.
\<close>

definition reshape_rows :: "nat \<Rightarrow> 'a list \<Rightarrow> 'a list list" where
  "reshape_rows r s = chunks (length s div r) s"

definition squeeze :: "nat \<Rightarrow> 'a list list list \<Rightarrow> error + 'a list list list list" where
  "squeeze hp_h c =
     (if hp_h = 0 then Inl ZeroDivisionError
      else if c = [] \<or> hd c = [] then Inl RuntimeError
      else let L = length (hd (hd c)); r = L div hp_h
           in if r = 0 \<or> \<not> r dvd L then Inl RuntimeError
              else Inr (map (map (\<lambda>s. transpose (reshape_rows r s))) c))"

text \<open>
  \<^verbatim>\<open>WaveFlow.forward\<close> with \<^verbatim>\<open>squeezed=False\<close> gives the \<^verbatim>\<open>BxL\<close> signal one channel
  (line 304); the conditioning keeps its channels (line 305).
\<close>

definition squeeze_signal :: "nat \<Rightarrow> 'a list list \<Rightarrow> error + 'a list list list list" where
  "squeeze_signal hp_h x = squeeze hp_h (map (\<lambda>xb. [xb]) x)"

text \<open>The shape of a well-formed nested list.\<close>

definition has_shape3 :: "nat \<Rightarrow> nat \<Rightarrow> nat \<Rightarrow> 'a list list list \<Rightarrow> bool" where
  "has_shape3 B C L c \<longleftrightarrow>
     length c = B \<and> (\<forall>cb \<in> set c. length cb = C \<and> (\<forall>s \<in> set cb. length s = L))"

definition has_shape4 :: "nat \<Rightarrow> nat \<Rightarrow> nat \<Rightarrow> nat \<Rightarrow> 'a list list list list \<Rightarrow> bool" where
  "has_shape4 B C H W g \<longleftrightarrow>
     length g = B \<and> (\<forall>gb \<in> set g. length gb = C \<and>
       (\<forall>p \<in> set gb. length p = H \<and> (\<forall>row \<in> set p. length row = W)))"

section \<open>The numeric kernels of the library\<close>

text \<open>
  The convolutions and the pointwise functions of the numeric library act on the
  batch, channel and width axes of a height slice; what they compute there is a
  parameter of the model. The record below collects the functions the module
  calls, each as a function on one height slice, and the two all-zero slices the
  module creates: \<open>zero_in\<close> with the shape of a slice of the signal and \<open>zero_res\<close>
  with the shape of a slice of the residual channel (\<^verbatim>\<open>hp.res_size\<close> channels).
  Slices are taken to agree in batch, channel and width extents, as the configured
  channel sizes and a conditioning of the signal's shape guarantee; every failure
  along the height axis is a branch of the model.
\<close>

record 's torch =
  zero_in :: 's
  zero_res :: 's
  t_tanh :: "'s \<Rightarrow> 's"
  t_sigmoid :: "'s \<Rightarrow> 's"
  t_relu :: "'s \<Rightarrow> 's"
  t_exp :: "'s \<Rightarrow> 's"
  t_neg :: "'s \<Rightarrow> 's"
  t_add :: "'s \<Rightarrow> 's \<Rightarrow> 's"
  t_sub :: "'s \<Rightarrow> 's \<Rightarrow> 's"
  t_mul :: "'s \<Rightarrow> 's \<Rightarrow> 's"
  t_scale :: "real \<Rightarrow> 's \<Rightarrow> 's"
  t_clamp_max :: "real \<Rightarrow> 's \<Rightarrow> 's"
  t_split_hidden :: "'s \<Rightarrow> 's \<times> 's"
  t_split_out :: "'s \<Rightarrow> 's \<times> 's"

definition bindE :: "error + 'a \<Rightarrow> ('a \<Rightarrow> error + 'b) \<Rightarrow> error + 'b" where
  "bindE m f = (case m of Inl e \<Rightarrow> Inl e | Inr v \<Rightarrow> f v)"

text \<open>
  A binary pointwise operation on two tensors: along the height axis the extents
  must agree, or one of them must be one (broadcasting).
\<close>

definition broadcast2 :: "('s \<Rightarrow> 's \<Rightarrow> 's) \<Rightarrow> 's tensor \<Rightarrow> 's tensor \<Rightarrow> error + 's tensor" where
  "broadcast2 f a b =
     (if length a = length b then Inr (map2 f a b)
      else if length a = 1 then Inr (map (f (hd a)) b)
      else if length b = 1 then Inr (map (\<lambda>x. f x (hd b)) a)
      else Inl RuntimeError)"

text \<open>
  \<^verbatim>\<open>nn.Conv2d\<close> along the height axis, without bias: the input is padded with \<open>pad\<close>
  zero slices on both sides, and output row \<open>t\<close> is computed from the \<open>kh\<close> padded
  rows \<open>t, t + dil, ..., t + (kh - 1) * dil\<close>. The function \<open>w\<close> is the weight: it
  maps those rows to the output row (mixing channels, and convolving along the
  width with its own padding). The call fails when the kernel does not fit.
\<close>

definition conv2d ::
  "('s list \<Rightarrow> 's) \<Rightarrow> nat \<Rightarrow> nat \<Rightarrow> nat \<Rightarrow> 's \<Rightarrow> 's tensor \<Rightarrow> error + 's tensor" where
  "conv2d w kh dil pad zero x =
     (let xp = replicate pad zero @ x @ replicate pad zero;
          span = (kh - 1) * dil + 1
      in if kh = 0 \<or> dil = 0 \<or> length xp < span then Inl RuntimeError
         else Inr (map (\<lambda>t. w (map (\<lambda>j. xp ! (t + j * dil)) [0..<kh]))
                     [0..<length xp - span + 1]))"

text \<open>The slice \<^verbatim>\<open>x[:,:,:-n,:]\<close>; for \<^verbatim>\<open>n = 0\<close> it is \<^verbatim>\<open>x[:,:,:0,:]\<close>, which is empty.\<close>

definition drop_last :: "nat \<Rightarrow> 's tensor \<Rightarrow> 's tensor" where
  "drop_last n x = (if n = 0 then [] else take (length x - n) x)"

text \<open>The slice \<^verbatim>\<open>x[:,:,-1:,:]\<close>.\<close>

definition last_row :: "'s tensor \<Rightarrow> 's tensor" where
  "last_row x = drop (length x - 1) x"

section \<open>ResidualBlock\<close>

text \<open>
  The four convolutions of a block are weights; \<open>initial_conv_padding\<close> is the
  height component of \<^verbatim>\<open>self.initial_conv.padding\<close>, which the incremental forward
  pass overwrites, and \<open>padding_h\<close> is \<^verbatim>\<open>self.padding_h\<close>, which stays.
\<close>

record 's ResidualBlock =
  dilation :: nat
  padding_h :: nat
  initial_conv :: "'s list \<Rightarrow> 's"
  initial_conv_padding :: nat
  cdtconv :: "'s \<Rightarrow> 's"
  resconv :: "'s \<Rightarrow> 's"
  skipconv :: "'s \<Rightarrow> 's"

definition ResidualBlock_init ::
  "nat \<Rightarrow> nat \<Rightarrow> ('s list \<Rightarrow> 's) \<Rightarrow> ('s \<Rightarrow> 's) \<Rightarrow> ('s \<Rightarrow> 's) \<Rightarrow> ('s \<Rightarrow> 's) \<Rightarrow> 's ResidualBlock" where
  "ResidualBlock_init kernel_size dil w_initial w_cdt w_res w_skip =
     (let total_size = (kernel_size - 1) * dil + 1
      in \<lparr> dilation = dil, padding_h = total_size - 1, initial_conv = w_initial,
           initial_conv_padding = total_size - 1, cdtconv = w_cdt, resconv = w_res,
           skipconv = w_skip \<rparr>)"

definition ResidualBlock_forward ::
  "'s torch \<Rightarrow> nat \<Rightarrow> 's ResidualBlock \<Rightarrow> 's tensor \<Rightarrow> 's tensor \<Rightarrow> bool
     \<Rightarrow> error + 's ResidualBlock \<times> 's tensor \<times> 's tensor" where
  "ResidualBlock_forward T kernel_size blk x c incremental =
     (let res = x;
          blk1 = (if incremental \<and> initial_conv_padding blk \<noteq> 0
                  then blk\<lparr>initial_conv_padding := 0\<rparr> else blk)
      in bindE (conv2d (initial_conv blk1) kernel_size (dilation blk1)
                  (initial_conv_padding blk1) (zero_res T) x) (\<lambda>y.
         let x1 = (if incremental then y else drop_last (padding_h blk1) y);
             c1 = map (cdtconv blk1) c;
             xa = map (fst \<circ> t_split_hidden T) x1;
             xb = map (snd \<circ> t_split_hidden T) x1;
             ca = map (fst \<circ> t_split_hidden T) c1;
             cb = map (snd \<circ> t_split_hidden T) c1
         in bindE (broadcast2 (t_add T) xa ca) (\<lambda>a.
            bindE (broadcast2 (t_add T) xb cb) (\<lambda>b.
            bindE (broadcast2 (t_mul T) (map (t_tanh T) a) (map (t_sigmoid T) b)) (\<lambda>x2.
            bindE (broadcast2 (t_add T) (map (resconv blk1) x2)
                     (if incremental then last_row res else res)) (\<lambda>res1.
            Inr (blk1, res1, map (skipconv blk1) x2)))))))"

section \<open>CircularTensor\<close>

text \<open>
  Modelled from the spec: the class \<^verbatim>\<open>CircularTensor\<close> of \<^verbatim>\<open>waveflow/fast_utils.py\<close>
  is not among the sources. Following the spec's IncrementalCache, it is a ring
  buffer along the height axis with a write cursor: \<^verbatim>\<open>set_current\<close> writes a slice at
  the cursor and advances the cursor modulo the buffer length, and calling the
  object returns the buffer's slices in temporal order, oldest first.
\<close>

record 's CircularTensor =
  tensor :: "'s list"
  cursor :: nat

definition CircularTensor_init :: "'s list \<Rightarrow> 's CircularTensor" where
  "CircularTensor_init t = \<lparr> tensor = t, cursor = 0 \<rparr>"

definition set_current :: "'s CircularTensor \<Rightarrow> 's \<Rightarrow> 's CircularTensor" where
  "set_current ct v =
     \<lparr> tensor = (tensor ct)[cursor ct := v],
       cursor = (cursor ct + 1) mod length (tensor ct) \<rparr>"

definition window :: "'s CircularTensor \<Rightarrow> 's tensor" where
  "window ct = drop (cursor ct) (tensor ct) @ take (cursor ct) (tensor ct)"

section \<open>ResidualStack\<close>

record 's ResidualStack =
  first_conv :: "'s list \<Rightarrow> 's"
  first_conv_padding :: nat
  stack :: "'s ResidualBlock list"
  last_conv1 :: "'s \<Rightarrow> 's"
  last_conv2 :: "'s \<Rightarrow> 's"
  cache :: "'s CircularTensor list option"

text \<open>The weights of one stack; those of a block are indexed by its layer.\<close>

record 's stack_weights =
  w_first_conv :: "'s list \<Rightarrow> 's"
  w_initial_conv :: "nat \<Rightarrow> 's list \<Rightarrow> 's"
  w_cdtconv :: "nat \<Rightarrow> 's \<Rightarrow> 's"
  w_resconv :: "nat \<Rightarrow> 's \<Rightarrow> 's"
  w_skipconv :: "nat \<Rightarrow> 's \<Rightarrow> 's"
  w_last_conv1 :: "'s \<Rightarrow> 's"
  w_last_conv2 :: "'s \<Rightarrow> 's"

definition ResidualStack_init :: "nat \<Rightarrow> nat \<Rightarrow> nat \<Rightarrow> 's stack_weights \<Rightarrow> 's ResidualStack" where
  "ResidualStack_init kernel_size cycle_size n_layer W =
     \<lparr> first_conv = w_first_conv W, first_conv_padding = 2,
       stack = map (\<lambda>i. ResidualBlock_init kernel_size
                           (nat (stack_dilations cycle_size n_layer ! i))
                           (w_initial_conv W i) (w_cdtconv W i) (w_resconv W i) (w_skipconv W i))
                 [0..<n_layer],
       last_conv1 = w_last_conv1 W, last_conv2 = w_last_conv2 W, cache = None \<rparr>"

text \<open>
  \<^verbatim>\<open>sum(skp_list)\<close> adds the tensors from the left, starting from the integer 0;
  adding 0 leaves the first tensor as it is. For an empty list the sum is the
  integer 0, which the first layer of \<^verbatim>\<open>last_convs\<close> rejects.
\<close>

fun sum_from :: "'s torch \<Rightarrow> 's tensor \<Rightarrow> 's tensor list \<Rightarrow> error + 's tensor" where
  "sum_from T acc [] = Inr acc"
| "sum_from T acc (s # ss) = bindE (broadcast2 (t_add T) acc s) (\<lambda>acc1. sum_from T acc1 ss)"

definition sum_skips :: "'s torch \<Rightarrow> 's tensor list \<Rightarrow> error + 's tensor" where
  "sum_skips T skp_list = (case skp_list of [] \<Rightarrow> Inl TypeError | s # ss \<Rightarrow> sum_from T s ss)"

definition last_convs :: "'s torch \<Rightarrow> 's ResidualStack \<Rightarrow> 's tensor \<Rightarrow> 's tensor" where
  "last_convs T stk x = map (\<lambda>s. last_conv2 stk (t_relu T (last_conv1 stk (t_relu T s)))) x"

text \<open>The loop over the blocks in \<^verbatim>\<open>ResidualStack.forward\<close>.\<close>

fun forward_blocks ::
  "'s torch \<Rightarrow> nat \<Rightarrow> 's ResidualBlock list \<Rightarrow> 's tensor \<Rightarrow> 's tensor \<Rightarrow> error + 's tensor list" where
  "forward_blocks T k [] res c = Inr []"
| "forward_blocks T k (blk # blks) res c =
     bindE (ResidualBlock_forward T k blk res c False) (\<lambda>(blk1, res1, skp).
     bindE (forward_blocks T k blks res1 c) (\<lambda>skps. Inr (skp # skps)))"

definition ResidualStack_forward ::
  "'s torch \<Rightarrow> nat \<Rightarrow> 's ResidualStack \<Rightarrow> 's tensor \<Rightarrow> 's tensor \<Rightarrow> error + 's tensor" where
  "ResidualStack_forward T kernel_size stk x c =
     bindE (conv2d (first_conv stk) 2 1 (first_conv_padding stk) (zero_in T) x) (\<lambda>y.
     let res = map (t_tanh T) (take (length y - 3) y)
     in bindE (forward_blocks T kernel_size (stack stk) res c) (\<lambda>skp_list.
        bindE (sum_skips T skp_list) (\<lambda>x1. Inr (last_convs T stk x1))))"

text \<open>
  The loop over the blocks in \<^verbatim>\<open>arTransform\<close>: \<^verbatim>\<open>self.cache[i]\<close> raises when the cache
  has fewer entries than the stack.
\<close>

fun ar_blocks ::
  "'s torch \<Rightarrow> nat \<Rightarrow> 's ResidualBlock list \<Rightarrow> 's CircularTensor list \<Rightarrow> 's tensor \<Rightarrow> 's tensor
     \<Rightarrow> error + 's ResidualBlock list \<times> 's CircularTensor list \<times> 's tensor list" where
  "ar_blocks T k [] cts res c_in = Inr ([], cts, [])"
| "ar_blocks T k (blk # blks) [] res c_in = Inl IndexError"
| "ar_blocks T k (blk # blks) (ct # cts) res c_in =
     (if res = [] then Inl IndexError
      else let ct1 = set_current ct (last res)
           in bindE (ResidualBlock_forward T k blk (window ct1) c_in True) (\<lambda>(blk1, res1, skp).
              bindE (ar_blocks T k blks cts res1 c_in) (\<lambda>(blks1, cts1, skps).
              Inr (blk1 # blks1, ct1 # cts1, skp # skps))))"

definition split_out :: "'s torch \<Rightarrow> 's tensor \<Rightarrow> 's tensor \<times> 's tensor" where
  "split_out T y = (map (fst \<circ> t_split_out T) y, map (snd \<circ> t_split_out T) y)"

text \<open>The update \<^verbatim>\<open>(z - mean) * torch.exp(-logvar)\<close> of one row.\<close>

definition inv_affine :: "'s torch \<Rightarrow> 's \<Rightarrow> 's \<Rightarrow> 's \<Rightarrow> 's" where
  "inv_affine T z mean logvar = t_mul T (t_sub T z mean) (t_exp T (t_neg T logvar))"

text \<open>One iteration of the loop over \<^verbatim>\<open>step\<close> in \<^verbatim>\<open>arTransform\<close>, on the padded \<^verbatim>\<open>z\<close>.\<close>

definition ar_step ::
  "'s torch \<Rightarrow> nat \<Rightarrow> 's ResidualStack \<Rightarrow> 's tensor \<Rightarrow> 's tensor \<Rightarrow> nat
     \<Rightarrow> error + 's ResidualStack \<times> 's tensor" where
  "ar_step T kernel_size stk z c step =
     (let z_in = take 2 (drop step z);
          c_in = take 1 (drop step c)
      in bindE (conv2d (first_conv stk) 2 1 (first_conv_padding stk) (zero_in T) z_in) (\<lambda>y.
         let res = map (t_tanh T) y
         in case cache stk of
              None \<Rightarrow> Inl TypeError
            | Some cts \<Rightarrow>
                bindE (ar_blocks T kernel_size (stack stk) cts res c_in) (\<lambda>(blks1, cts1, skp_list).
                bindE (sum_skips T skp_list) (\<lambda>x.
                let (mean, logvar) = split_out T (last_convs T stk x)
                in if length z \<le> step + 2 \<or> mean = [] \<or> logvar = [] then Inl IndexError
                   else Inr (stk\<lparr>stack := blks1, cache := Some cts1\<rparr>,
                             z[step + 2 := inv_affine T (z ! (step + 2)) (last mean) (last logvar)])))))"

fun ar_steps ::
  "'s torch \<Rightarrow> nat \<Rightarrow> 's ResidualStack \<Rightarrow> 's tensor \<Rightarrow> 's tensor \<Rightarrow> nat list
     \<Rightarrow> error + 's ResidualStack \<times> 's tensor" where
  "ar_steps T k stk z c [] = Inr (stk, z)"
| "ar_steps T k stk z c (step # steps) =
     bindE (ar_step T k stk z c step) (\<lambda>(stk1, z1). ar_steps T k stk1 z1 c steps)"

text \<open>
  \<^verbatim>\<open>arTransform\<close>: on the first synthesis the padding of \<^verbatim>\<open>first_conv\<close> is set to zero
  and one zero buffer per block is allocated; on a resumed synthesis the buffers
  are zeroed in place (\<^verbatim>\<open>self.cache[i].tensor.zero_()\<close>) and nothing else is touched.
\<close>

definition prepare_cache :: "'s torch \<Rightarrow> nat \<Rightarrow> 's ResidualStack \<Rightarrow> 's ResidualStack" where
  "prepare_cache T kernel_size stk =
     (case cache stk of
        None \<Rightarrow>
          stk\<lparr> first_conv_padding := 0,
               cache := Some (map (\<lambda>block. CircularTensor_init
                                (replicate ((kernel_size - 1) * dilation block + 1) (zero_res T)))
                              (stack stk)) \<rparr>
      | Some cts \<Rightarrow>
          stk\<lparr> cache := Some (map (\<lambda>ct. ct\<lparr>tensor := map (\<lambda>_. zero_res T) (tensor ct)\<rparr>) cts) \<rparr>)"

definition arTransform ::
  "'s torch \<Rightarrow> nat \<Rightarrow> nat \<Rightarrow> 's ResidualStack \<Rightarrow> 's tensor \<Rightarrow> 's tensor
     \<Rightarrow> error + 's ResidualStack \<times> 's tensor" where
  "arTransform T kernel_size hp_h stk z c =
     (let stk1 = prepare_cache T kernel_size stk;
          z1 = replicate 2 (zero_in T) @ z
      in bindE (ar_steps T kernel_size stk1 z1 c [0..<hp_h]) (\<lambda>(stk2, z2).
         Inr (stk2, drop 2 z2)))"

section \<open>WaveFlow\<close>

text \<open>
  A flow is called as \<^verbatim>\<open>mean, logvar = torch.split(flow(x, c), 1, 1)\<close>. The loops of the
  model are written over such coupling functions; for the model itself they are the
  parallel evaluations of its stacks.
\<close>

type_synonym 's coupling = "'s tensor \<Rightarrow> 's tensor \<Rightarrow> error + 's tensor \<times> 's tensor"

definition flow_call :: "'s torch \<Rightarrow> nat \<Rightarrow> 's ResidualStack \<Rightarrow> 's coupling" where
  "flow_call T kernel_size stk x c =
     bindE (ResidualStack_forward T kernel_size stk x c) (\<lambda>y. Inr (split_out T y))"

record 's WaveFlow =
  flows :: "'s ResidualStack list"
  receptive_field_attr :: int

text \<open>
  \<^verbatim>\<open>WaveFlow.__init__\<close>: the stacks are built from their (randomly initialised)
  weights, one set per flow, and the receptive field is computed.
\<close>

definition WaveFlow_init ::
  "nat \<Rightarrow> nat \<Rightarrow> nat \<Rightarrow> nat \<Rightarrow> (nat \<Rightarrow> 's stack_weights) \<Rightarrow> error + 's WaveFlow" where
  "WaveFlow_init kernel_size cycle_size n_layer n_flow W =
     (let fl = map (\<lambda>i. ResidualStack_init kernel_size cycle_size n_layer (W i)) [0..<n_flow]
      in bindE (receptive_field kernel_size cycle_size n_layer) (\<lambda>r.
         Inr \<lparr> flows = fl, receptive_field_attr = r \<rparr>))"

subsection \<open>Between nested lists and height slices\<close>

text \<open>The height slices \<^verbatim>\<open>g[:,:,i,:]\<close> of a \<^verbatim>\<open>BxCxHxW\<close> nested list.\<close>

definition height_slices :: "'a list list list list \<Rightarrow> 'a list list list tensor" where
  "height_slices g =
     (if g = [] \<or> hd g = [] then []
      else map (\<lambda>i. map (map (\<lambda>p. p ! i)) g) [0..<length (hd (hd g))])"

text \<open>
  \<^verbatim>\<open>z.transpose(2,3).reshape(z.shape[0], -1)\<close>: per batch entry the channels, within a
  channel the columns, within a column the rows. A tensor without elements and
  without batch entries cannot be reshaped.
\<close>

definition unsqueeze :: "'a list list list tensor \<Rightarrow> error + 'a list list" where
  "unsqueeze z =
     (if z = [] \<or> hd z = [] then Inl RuntimeError
      else let B = length (hd z); C = length (hd (hd z));
               W = (if C = 0 then 0 else length (hd (hd (hd z))))
           in Inr (map (\<lambda>b. concat (map (\<lambda>ch. concat (map (\<lambda>j. map (\<lambda>s. s ! b ! ch ! j) z)
                                   [0..<W])) [0..<C])) [0..<B]))"

subsection \<open>The forward pass\<close>

text \<open>
  One iteration of the loop of \<^verbatim>\<open>WaveFlow.forward\<close> on the state
  \<^verbatim>\<open>(x, c, (global_mean, global_logvar))\<close>. Besides the new state it returns the pair
  \<^verbatim>\<open>(mean, logvar)\<close> that the iteration used, \<^verbatim>\<open>logvar\<close> being the value after line 313.
\<close>

type_synonym 's forward_state = "'s tensor \<times> 's tensor \<times> ('s tensor \<times> 's tensor) option"

definition forward_step ::
  "'s torch \<Rightarrow> nat \<Rightarrow> 's coupling \<Rightarrow> 's forward_state
     \<Rightarrow> error + 's forward_state \<times> ('s tensor \<times> 's tensor)" where
  "forward_step T i flow st =
     (case st of (x, c, global) \<Rightarrow>
        bindE (flow x c) (\<lambda>(mean, logvar0).
        let logvar = map (t_clamp_max T 10) logvar0
        in bindE (case global of
                    Some (global_mean, global_logvar) \<Rightarrow>
                      bindE (broadcast2 (t_mul T) global_mean (map (t_exp T) logvar)) (\<lambda>a.
                      bindE (broadcast2 (t_add T) a mean) (\<lambda>global_mean1.
                      bindE (broadcast2 (t_add T) global_logvar logvar) (\<lambda>global_logvar1.
                      Inr (global_mean1, global_logvar1))))
                  | None \<Rightarrow> Inr (mean, logvar)) (\<lambda>global1.
           bindE (broadcast2 (t_mul T) (map (t_exp T) logvar) x) (\<lambda>a.
           bindE (broadcast2 (t_add T) a mean) (\<lambda>x1.
           bindE (apply_flip (forward_flip i) x1) (\<lambda>x2.
           bindE (apply_flip (forward_flip i) c) (\<lambda>c2.
           Inr ((x2, c2, Some global1), (mean, logvar)))))))))"

fun forward_loop ::
  "'s torch \<Rightarrow> nat \<Rightarrow> 's coupling list \<Rightarrow> 's forward_state
     \<Rightarrow> error + 's forward_state \<times> ('s tensor \<times> 's tensor) list" where
  "forward_loop T i [] st = Inr (st, [])"
| "forward_loop T i (flow # fls) st =
     bindE (forward_step T i flow st) (\<lambda>(st1, p).
     bindE (forward_loop T (Suc i) fls st1) (\<lambda>(st2, ps). Inr (st2, p # ps)))"

text \<open>The body of \<^verbatim>\<open>WaveFlow.forward\<close> after the reshape (all of it for \<^verbatim>\<open>squeezed=True\<close>).\<close>

definition forward_grid ::
  "'s torch \<Rightarrow> 's coupling list \<Rightarrow> 's tensor \<Rightarrow> 's tensor
     \<Rightarrow> error + 's tensor \<times> ('s tensor \<times> 's tensor) option" where
  "forward_grid T fls x c =
     bindE (forward_loop T 0 fls (x, c, None)) (\<lambda>((x1, c1, global), ps). Inr (x1, global))"

text \<open>\<^verbatim>\<open>WaveFlow.forward(x, c, squeezed=False)\<close>.\<close>

definition WaveFlow_forward ::
  "'a list list list torch \<Rightarrow> nat \<Rightarrow> nat \<Rightarrow> 'a list list list WaveFlow
     \<Rightarrow> 'a list list \<Rightarrow> 'a list list list
     \<Rightarrow> error + 'a list list list tensor \<times> ('a list list list tensor \<times> 'a list list list tensor) option" where
  "WaveFlow_forward T kernel_size hp_h M x c =
     bindE (squeeze_signal hp_h x) (\<lambda>gx.
     bindE (squeeze hp_h c) (\<lambda>gc.
     forward_grid T (map (flow_call T kernel_size) (flows M)) (height_slices gx) (height_slices gc)))"

subsection \<open>The naive inverse pass\<close>

definition inverse_step :: "'s torch \<Rightarrow> 's coupling \<Rightarrow> 's tensor \<Rightarrow> 's tensor \<Rightarrow> nat \<Rightarrow> error + 's tensor" where
  "inverse_step T flow z c step =
     (let z_in = take (step + 1) z;
          c_in = take (step + 1) c
      in bindE (flow z_in c_in) (\<lambda>(mean, logvar).
         if length z \<le> step \<or> mean = [] \<or> logvar = [] then Inl IndexError
         else Inr (z[step := inv_affine T (z ! step) (last mean) (last logvar)])))"

fun inverse_steps ::
  "'s torch \<Rightarrow> 's coupling \<Rightarrow> 's tensor \<Rightarrow> 's tensor \<Rightarrow> nat list \<Rightarrow> error + 's tensor" where
  "inverse_steps T flow z c [] = Inr z"
| "inverse_steps T flow z c (step # steps) =
     bindE (inverse_step T flow z c step) (\<lambda>z1. inverse_steps T flow z1 c steps)"

text \<open>
  The loop over \<^verbatim>\<open>enumerate(self.flows[::-1])\<close> of \<^verbatim>\<open>synthesize\<close>, from position \<open>i\<close> on.
\<close>

fun synthesize_flows ::
  "'s torch \<Rightarrow> nat \<Rightarrow> nat \<Rightarrow> 's coupling list \<Rightarrow> 's tensor \<Rightarrow> 's tensor \<Rightarrow> error + 's tensor" where
  "synthesize_flows T hp_h i [] z c = Inr z"
| "synthesize_flows T hp_h i (flow # fls) z c =
     bindE (apply_flip (synthesize_flip i) z) (\<lambda>z1.
     bindE (apply_flip (synthesize_flip i) c) (\<lambda>c1.
     bindE (inverse_steps T flow z1 c1 [0..<hp_h]) (\<lambda>z2.
     synthesize_flows T hp_h (Suc i) fls z2 c1)))"

text \<open>
  \<^verbatim>\<open>WaveFlow.synthesize(c, temp)\<close>. The argument \<open>noise\<close> is the tensor that
  \<^verbatim>\<open>torch.randn\<close> returns at line 363, given by its height slices; it has the height of
  the squeezed conditioning.
\<close>

definition synthesize ::
  "'a list list list torch \<Rightarrow> nat \<Rightarrow> nat \<Rightarrow> 'a list list list WaveFlow
     \<Rightarrow> 'a list list list \<Rightarrow> 'a list list list tensor \<Rightarrow> real \<Rightarrow> error + 'a list list" where
  "synthesize T kernel_size hp_h M c noise temp =
     bindE (squeeze hp_h c) (\<lambda>g.
     let c1 = height_slices g;
         z = map (t_scale T temp) noise
     in bindE (synthesize_flows T hp_h 0 (rev (map (flow_call T kernel_size) (flows M))) z c1)
          unsqueeze)"

subsection \<open>The cached inverse pass\<close>

fun synthesize_fast_flows ::
  "'s torch \<Rightarrow> nat \<Rightarrow> nat \<Rightarrow> nat \<Rightarrow> 's ResidualStack list \<Rightarrow> 's tensor \<Rightarrow> 's tensor
     \<Rightarrow> error + 's ResidualStack list \<times> 's tensor" where
  "synthesize_fast_flows T k hp_h i [] z c = Inr ([], z)"
| "synthesize_fast_flows T k hp_h i (flow # fls) z c =
     bindE (apply_flip (synthesize_flip i) z) (\<lambda>z1.
     bindE (apply_flip (synthesize_flip i) c) (\<lambda>c1.
     bindE (arTransform T k hp_h flow z1 c1) (\<lambda>(flow1, z2).
     bindE (synthesize_fast_flows T k hp_h (Suc i) fls z2 c1) (\<lambda>(fls1, z3).
     Inr (flow1 # fls1, z3)))))"

text \<open>
  \<^verbatim>\<open>WaveFlow.synthesize_fast(c, temp)\<close>; the stacks are left with their caches and their
  overwritten paddings, so the model is returned with the signal.
\<close>

definition synthesize_fast ::
  "'a list list list torch \<Rightarrow> nat \<Rightarrow> nat \<Rightarrow> 'a list list list WaveFlow
     \<Rightarrow> 'a list list list \<Rightarrow> 'a list list list tensor \<Rightarrow> real
     \<Rightarrow> error + 'a list list list WaveFlow \<times> 'a list list" where
  "synthesize_fast T kernel_size hp_h M c noise temp =
     bindE (squeeze hp_h c) (\<lambda>g.
     let c1 = height_slices g;
         z = map (t_scale T temp) noise
     in bindE (synthesize_fast_flows T kernel_size hp_h 0 (rev (flows M)) z c1) (\<lambda>(fls1, z1).
        bindE (unsqueeze z1) (\<lambda>out. Inr (M\<lparr>flows := rev fls1\<rparr>, out))))"

section \<open>Real arithmetic on slices\<close>

text \<open>
  The pointwise functions on slices of real numbers, a slice being a \<^verbatim>\<open>BxCxW\<close> nested
  list; floating-point arithmetic is idealised as exact.
\<close>

definition lift1 :: "('a \<Rightarrow> 'b) \<Rightarrow> 'a list list list \<Rightarrow> 'b list list list" where
  "lift1 f = map (map (map f))"

definition lift2 :: "('a \<Rightarrow> 'b \<Rightarrow> 'c) \<Rightarrow> 'a list list list \<Rightarrow> 'b list list list \<Rightarrow> 'c list list list" where
  "lift2 f = map2 (map2 (map2 f))"

definition real_torch :: "nat \<Rightarrow> nat \<Rightarrow> nat \<Rightarrow> nat \<Rightarrow> real list list list torch" where
  "real_torch B W res_size hidden_size =
     \<lparr> zero_in = replicate B [replicate W 0],
       zero_res = replicate B (replicate res_size (replicate W 0)),
       t_tanh = lift1 tanh,
       t_sigmoid = lift1 (\<lambda>v. 1 / (1 + exp (- v))),
       t_relu = lift1 (max 0),
       t_exp = lift1 exp,
       t_neg = lift1 uminus,
       t_add = lift2 (+),
       t_sub = lift2 (-),
       t_mul = lift2 (*),
       t_scale = (\<lambda>temp. lift1 (\<lambda>v. v * temp)),
       t_clamp_max = (\<lambda>m. lift1 (\<lambda>v. min v m)),
       t_split_hidden = (\<lambda>s. (map (take hidden_size) s, map (drop hidden_size) s)),
       t_split_out = (\<lambda>s. (map (take 1) s, map (drop 1) s)) \<rparr>"

section \<open>Reading the forward pass\<close>


definition affine_map :: "'s torch \<Rightarrow> 's tensor \<times> 's tensor \<Rightarrow> 's tensor \<Rightarrow> error + 's tensor" where
  "affine_map T p v =
     (case p of (mean, logvar) \<Rightarrow>
        bindE (broadcast2 (t_mul T) (map (t_exp T) logvar) v) (\<lambda>a. broadcast2 (t_add T) a mean))"

fun compose_affine :: "'s torch \<Rightarrow> ('s tensor \<times> 's tensor) list \<Rightarrow> 's tensor \<Rightarrow> error + 's tensor" where
  "compose_affine T [] v = Inr v"
| "compose_affine T (p # ps) v = bindE (affine_map T p v) (compose_affine T ps)"

section \<open>The coupling network row by row\<close>

text \<open>
  What the coupling network computes, written row by row: row \<open>t\<close> of the first
  convolution reads the two signal rows before \<open>t\<close>, and row \<open>t\<close> of a block reads
  the window of the last \<^verbatim>\<open>(kernel_size-1)*dilation + 1\<close> rows of its input that ends at \<open>t\<close>,
  rows before the first being zero. Both evaluations of a stack are compared with
  this reading.
\<close>

definition first_rows :: "'s torch \<Rightarrow> 's ResidualStack \<Rightarrow> 's tensor \<Rightarrow> 's tensor" where
  "first_rows T stk xs =
     map (\<lambda>t. t_tanh T (first_conv stk [(replicate 2 (zero_in T) @ xs) ! t,
                                         (replicate 2 (zero_in T) @ xs) ! (t + 1)]))
       [0..<length xs]"

definition block_size :: "nat \<Rightarrow> 's ResidualBlock \<Rightarrow> nat" where
  "block_size k blk = (k - 1) * dilation blk + 1"

definition block_window :: "'s torch \<Rightarrow> nat \<Rightarrow> 's ResidualBlock \<Rightarrow> 's tensor \<Rightarrow> nat \<Rightarrow> 's list" where
  "block_window T k blk rs t =
     take (block_size k blk) (drop t (replicate (block_size k blk - 1) (zero_res T) @ rs))"

definition block_row :: "'s torch \<Rightarrow> nat \<Rightarrow> 's ResidualBlock \<Rightarrow> 's list \<Rightarrow> 's \<Rightarrow> 's \<times> 's" where
  "block_row T k blk w c_t =
     (let y = initial_conv blk (map (\<lambda>j. w ! (j * dilation blk)) [0..<k]);
          cc = cdtconv blk c_t;
          a = t_add T (fst (t_split_hidden T y)) (fst (t_split_hidden T cc));
          b = t_add T (snd (t_split_hidden T y)) (snd (t_split_hidden T cc));
          g = t_mul T (t_tanh T a) (t_sigmoid T b)
      in (t_add T (resconv blk g) (last w), skipconv blk g))"

definition block_rows :: "'s torch \<Rightarrow> nat \<Rightarrow> 's ResidualBlock \<Rightarrow> 's tensor \<Rightarrow> 's tensor \<Rightarrow> ('s \<times> 's) list" where
  "block_rows T k blk rs cs =
     map (\<lambda>t. block_row T k blk (block_window T k blk rs t) (cs ! t)) [0..<length rs]"

text \<open>For each block of a stack, the rows it reads and the skip rows it gives.\<close>

fun stack_layers ::
  "'s torch \<Rightarrow> nat \<Rightarrow> 's ResidualBlock list \<Rightarrow> 's tensor \<Rightarrow> 's tensor \<Rightarrow> ('s tensor \<times> 's tensor) list" where
  "stack_layers T k [] rs cs = []"
| "stack_layers T k (blk # blks) rs cs =
     (rs, map snd (block_rows T k blk rs cs))
       # stack_layers T k blks (map fst (block_rows T k blk rs cs)) cs"

fun sum_rows :: "'s torch \<Rightarrow> 's tensor \<Rightarrow> 's tensor list \<Rightarrow> 's tensor" where
  "sum_rows T acc [] = acc"
| "sum_rows T acc (s # ss) = sum_rows T (map2 (t_add T) acc s) ss"

definition coupling_rows :: "'s torch \<Rightarrow> nat \<Rightarrow> 's ResidualStack \<Rightarrow> 's tensor \<Rightarrow> 's tensor \<Rightarrow> 's tensor" where
  "coupling_rows T k stk xs cs =
     (let skps = map snd (stack_layers T k (stack stk) (first_rows T stk xs) cs)
      in last_convs T stk (sum_rows T (hd skps) (tl skps)))"

text \<open>The inverse pass of one flow, row by row.\<close>

definition ideal_step :: "'s torch \<Rightarrow> nat \<Rightarrow> 's ResidualStack \<Rightarrow> 's tensor \<Rightarrow> 's tensor \<Rightarrow> nat \<Rightarrow> 's tensor" where
  "ideal_step T k stk z c t =
     (let out = coupling_rows T k stk z c ! t
      in z[t := inv_affine T (z ! t) (fst (t_split_out T out)) (snd (t_split_out T out))])"

fun ideal_steps :: "'s torch \<Rightarrow> nat \<Rightarrow> 's ResidualStack \<Rightarrow> 's tensor \<Rightarrow> 's tensor \<Rightarrow> nat list \<Rightarrow> 's tensor" where
  "ideal_steps T k stk z c [] = z"
| "ideal_steps T k stk z c (t # ts) = ideal_steps T k stk (ideal_step T k stk z c t) c ts"

text \<open>The states of a stack in which its two evaluations are used.\<close>

definition block_ok :: "nat \<Rightarrow> 's ResidualBlock \<Rightarrow> bool" where
  "block_ok k blk \<longleftrightarrow> 0 < dilation blk \<and> padding_h blk = (k - 1) * dilation blk"

definition parallel_ready :: "nat \<Rightarrow> 's ResidualStack \<Rightarrow> bool" where
  "parallel_ready k stk \<longleftrightarrow>
     first_conv_padding stk = 2 \<and> stack stk \<noteq> [] \<and>
     (\<forall>blk \<in> set (stack stk). block_ok k blk \<and> initial_conv_padding blk = padding_h blk)"

definition buffer_ok :: "nat \<Rightarrow> 's ResidualBlock \<Rightarrow> 's CircularTensor \<Rightarrow> bool" where
  "buffer_ok k blk ct \<longleftrightarrow> length (tensor ct) = block_size k blk \<and> cursor ct < block_size k blk"

definition cached_ready :: "nat \<Rightarrow> 's ResidualStack \<Rightarrow> bool" where
  "cached_ready k stk \<longleftrightarrow>
     stack stk \<noteq> [] \<and> (\<forall>blk \<in> set (stack stk). block_ok k blk) \<and>
     (case cache stk of
        None \<Rightarrow> True
      | Some cts \<Rightarrow> first_conv_padding stk = 0 \<and> list_all2 (buffer_ok k) (stack stk) cts)"


text \<open>
  The last \<open>m\<close> rows of a history that starts after \<open>m\<close> zero rows, and what it means
  for the buffers of a stack to hold the history of the rows before \<open>t\<close>.
\<close>

definition recent :: "nat \<Rightarrow> 's \<Rightarrow> 's list \<Rightarrow> 's list" where
  "recent m zero hist = drop (length hist) (replicate m zero @ hist)"

fun caches_hold ::
  "'s torch \<Rightarrow> nat \<Rightarrow> 's ResidualBlock list \<Rightarrow> 's tensor \<Rightarrow> 's tensor \<Rightarrow> nat
     \<Rightarrow> 's CircularTensor list \<Rightarrow> bool" where
  "caches_hold T k [] rs cs t cts \<longleftrightarrow> cts = []"
| "caches_hold T k (blk # blks) rs cs t [] \<longleftrightarrow> False"
| "caches_hold T k (blk # blks) rs cs t (ct # cts) \<longleftrightarrow>
     buffer_ok k blk ct \<and>
     window ct = recent (block_size k blk) (zero_res T) (take t rs) \<and>
     caches_hold T k blks (map fst (block_rows T k blk rs cs)) cs t cts"

text \<open>Two states of a stack with the same weights and dilations.\<close>

definition zero_pad :: "'s ResidualBlock \<Rightarrow> 's ResidualBlock" where
  "zero_pad blk = blk\<lparr>initial_conv_padding := 0\<rparr>"

definition same_net :: "'s ResidualStack \<Rightarrow> 's ResidualStack \<Rightarrow> bool" where
  "same_net a b \<longleftrightarrow>
     first_conv a = first_conv b \<and> last_conv1 a = last_conv1 b \<and> last_conv2 a = last_conv2 b \<and>
     map zero_pad (stack a) = map zero_pad (stack b)"

text \<open>The inverse pass over the flows, row by row.\<close>

fun ideal_flows ::
  "'s torch \<Rightarrow> nat \<Rightarrow> nat \<Rightarrow> nat \<Rightarrow> 's ResidualStack list \<Rightarrow> 's tensor \<Rightarrow> 's tensor \<Rightarrow> error + 's tensor" where
  "ideal_flows T k hp_h i [] z c = Inr z"
| "ideal_flows T k hp_h i (stk # stks) z c =
     bindE (apply_flip (synthesize_flip i) z) (\<lambda>z1.
     bindE (apply_flip (synthesize_flip i) c) (\<lambda>c1.
     ideal_flows T k hp_h (Suc i) stks (ideal_steps T k stk z1 c1 [0..<hp_h]) c1))"

section \<open>A small model\<close>

text \<open>
  For examples: batch size one, width one, one channel of each kind, two output
  channels, and every convolution weight zero, so that every convolution returns
  zeros and every flow leaves the signal as it is.
\<close>

definition unit_torch :: "real list list list torch" where
  "unit_torch = real_torch 1 1 1 1"

definition silent_weights :: "nat \<Rightarrow> real list list list stack_weights" where
  "silent_weights i =
     \<lparr> w_first_conv = (\<lambda>rows. [[[0]]]),
       w_initial_conv = (\<lambda>layer rows. [[[0], [0]]]),
       w_cdtconv = (\<lambda>layer s. [[[0], [0]]]),
       w_resconv = (\<lambda>layer s. [[[0]]]),
       w_skipconv = (\<lambda>layer s. [[[0]]]),
       w_last_conv1 = (\<lambda>s. [[[0]]]),
       w_last_conv2 = (\<lambda>s. [[[0], [0]]]) \<rparr>"

definition silent_stack :: "real list list list ResidualStack" where
  "silent_stack = ResidualStack_init 3 1 1 (silent_weights 0)"

definition silent_model :: "nat \<Rightarrow> real list list list WaveFlow" where
  "silent_model n_flow = \<lparr> flows = replicate n_flow silent_stack, receptive_field_attr = 3 \<rparr>"

text \<open>The only block of such a stack.\<close>

definition silent_block :: "real list list list ResidualBlock" where
  "silent_block = ResidualBlock_init 3 1 (\<lambda>rows. [[[0], [0]]]) (\<lambda>s. [[[0], [0]]])
       (\<lambda>s. [[[0]]]) (\<lambda>s. [[[0]]])"

text \<open>
  The stack as a cached synthesis leaves it: the paddings overwritten, and one buffer
  of three zero slices whose write cursor is at \<open>k\<close>.
\<close>

definition cached_stack :: "real list list list ResidualBlock \<Rightarrow> nat \<Rightarrow> real list list list ResidualStack" where
  "cached_stack blk k =
     silent_stack\<lparr> first_conv_padding := 0, stack := [blk],
                   cache := Some [\<lparr> tensor = [[[[0]]], [[[0]]], [[[0]]]], cursor = k \<rparr>] \<rparr>"

text \<open>The model of one flow after one cached synthesis at squeezed height two.\<close>

definition used_model :: "real list list list WaveFlow" where
  "used_model = \<lparr> flows = [cached_stack (zero_pad silent_block) 2], receptive_field_attr = 3 \<rparr>"

text \<open>
  A coupling function that returns the conditioning as mean and a constant as
  log-variance.
\<close>

definition conditioning_mean :: "real \<Rightarrow> real list list list coupling" where
  "conditioning_mean a x c = Inr (c, map (lift1 (\<lambda>v. a)) x)"

section \<open>Properties of the permutations\<close>

lemma bindE_Inr [simp]: "bindE (Inr v) f = f v"
  by (simp add: bindE_def)

lemma bindE_Inl [simp]: "bindE (Inl e) f = Inl e"
  by (simp add: bindE_def)

lemma bindE_eq_Inr: "bindE m f = Inr r \<longleftrightarrow> (\<exists>v. m = Inr v \<and> f v = Inr r)"
  by (cases m) simp_all


lemma chunks_two:
  assumes "0 < k" "length xs = 2 * k"
  shows "chunks k xs = [take k xs, drop k xs]"
proof -
  have xs: "xs \<noteq> []" using assms by auto
  have d: "drop k xs \<noteq> []" using assms by auto
  have "chunks k xs = take k xs # chunks k (drop k xs)"
    using assms xs by (subst chunks.simps) simp
  also have "chunks k (drop k xs) = take k (drop k xs) # chunks k (drop k (drop k xs))"
    using assms d by (subst chunks.simps) simp
  also have "take k (drop k xs) = drop k xs" using assms by simp
  also have "chunks k (drop k (drop k xs)) = []"
    using assms by (subst chunks.simps) simp
  finally show ?thesis .
qed

lemma chunks_three:
  assumes "0 < k" "length xs = 2 * k + 1"
  shows "\<exists>a b c. chunks k xs = [a, b, c]"
proof -
  have xs: "xs \<noteq> []" using assms by auto
  have d: "drop k xs \<noteq> []" using assms by auto
  have dd: "drop k (drop k xs) \<noteq> []" using assms by auto
  have e: "drop k (drop k (drop k xs)) = []" using assms by auto
  have "chunks k xs = take k xs # chunks k (drop k xs)"
    using assms xs by (subst chunks.simps) simp
  also have "chunks k (drop k xs) = take k (drop k xs) # chunks k (drop k (drop k xs))"
    using assms d by (subst chunks.simps) simp
  also have "chunks k (drop k (drop k xs))
      = take k (drop k (drop k xs)) # chunks k (drop k (drop k (drop k xs)))"
    using assms dd by (subst chunks.simps) simp
  also have "chunks k (drop k (drop k (drop k xs))) = []"
    using e by (subst chunks.simps) simp
  finally show ?thesis by blast
qed

lemma half_flip_even:
  assumes "even (length x)" "0 < length x"
  shows "half_flip x = Inr (rev (take (length x div 2) x) @ rev (drop (length x div 2) x))"
proof -
  obtain k where k: "length x = 2 * k" using assms(1) by (auto elim: evenE)
  with assms(2) have k0: "0 < k" by simp
  have ne: "x \<noteq> []" using assms(2) by auto
  show ?thesis
    using k k0 ne chunks_two [OF k0 k]
    by (simp add: half_flip_def torch_split_def)
qed

lemma half_flip_odd:
  assumes "odd (length x)"
  shows "\<exists>e. half_flip x = Inl e"
proof -
  obtain k where k: "length x = 2 * k + 1" using assms by (auto elim: oddE)
  have ne: "x \<noteq> []" using k by auto
  show ?thesis
  proof (cases "k = 0")
    case True
    then show ?thesis using k ne by (simp add: half_flip_def torch_split_def)
  next
    case False
    then have k0: "0 < k" by simp
    from chunks_three [OF k0 k] obtain a b c where "chunks k x = [a, b, c]" by blast
    then show ?thesis using k k0 ne by (simp add: half_flip_def torch_split_def)
  qed
qed

lemma half_flip_empty: "half_flip [] = Inl ValueError"
  by (simp add: half_flip_def torch_split_def)

lemma half_flip_length:
  assumes "half_flip x = Inr y"
  shows "length y = length x"
proof (cases "even (length x) \<and> 0 < length x")
  case True
  then have "y = rev (take (length x div 2) x) @ rev (drop (length x div 2) x)"
    using assms half_flip_even [of x] by simp
  then show ?thesis by simp
next
  case False
  then have "odd (length x) \<or> x = []" by auto
  then show ?thesis
  proof
    assume "odd (length x)"
    then obtain e where "half_flip x = Inl e" using half_flip_odd by blast
    with assms show ?thesis by simp
  next
    assume "x = []"
    with assms show ?thesis by (simp add: half_flip_empty)
  qed
qed

lemma half_flip_twice:
  assumes "even (length x)" "0 < length x"
  shows "\<exists>y. half_flip x = Inr y \<and> half_flip y = Inr x"
proof -
  let ?k = "length x div 2"
  let ?y = "rev (take ?k x) @ rev (drop ?k x)"
  have k: "length x = 2 * ?k" using assms(1) by auto
  have y: "half_flip x = Inr ?y" by (rule half_flip_even [OF assms])
  have ly: "length ?y = length x" by simp
  have "half_flip ?y = Inr (rev (take (length ?y div 2) ?y) @ rev (drop (length ?y div 2) ?y))"
    by (rule half_flip_even) (use assms ly in simp_all)
  also have "length ?y div 2 = ?k" using ly by simp
  also have "take ?k ?y = rev (take ?k x)" using k by simp
  also have "drop ?k ?y = rev (drop ?k x)" using k by simp
  finally have "half_flip ?y = Inr x" by simp
  with y show ?thesis by blast
qed

text \<open>
  C7, as the code has it: \<^verbatim>\<open>full_flip\<close> is an involution on every tensor, and
  \<^verbatim>\<open>half_flip\<close> is an involution on every tensor of positive even height, the tensors
  on which it returns at all; both only move height slices, whatever they hold.
\<close>

theorem flips_involutive:
  "full_flip (full_flip x) = x \<and>
   (even (length x) \<and> 0 < length x \<longrightarrow> (\<exists>y. half_flip x = Inr y \<and> half_flip y = Inr x))"
  using half_flip_twice [of x] by (simp add: full_flip_def)

theorem flips_involutive_witness:
  "full_flip (full_flip [1, 2, 3, 4 :: nat]) = [1, 2, 3, 4] \<and>
   half_flip [1, 2, 3, 4 :: nat] = Inr [2, 1, 4, 3] \<and> half_flip [2, 1, 4, 3 :: nat] = Inr [1, 2, 3, 4]"
proof -
  have h: "half_flip [1, 2, 3, 4 :: nat] = Inr [2, 1, 4, 3]"
    using half_flip_even [of "[1, 2, 3, 4 :: nat]"] by simp
  from flips_involutive [of "[1, 2, 3, 4 :: nat]"] h show ?thesis by simp
qed

text \<open>
  C7 as stated fails on a tensor of height three: the split gives three chunks and
  the unpacking into two names raises.
\<close>

theorem half_flip_odd_counterexample: "half_flip [1, 2, 3 :: nat] = Inl ValueError"
proof -
  have "chunks (Suc 0) [1, 2, 3 :: nat] = [[1], [2], [3]]"
    by (simp add: chunks.simps)
  then show ?thesis by (simp add: half_flip_def torch_split_def)
qed

text \<open>
  C10, as the code has it: on a tensor of positive even height \<^verbatim>\<open>half_flip\<close> returns
  the two halves, each reversed, in their original order, a tensor of the same
  height; on a tensor of odd height and on a tensor of height zero it raises.
\<close>

theorem half_flip_defined_iff:
  "(even (length x) \<and> 0 < length x \<longrightarrow>
      (\<exists>y. half_flip x = Inr y \<and> length y = length x \<and>
           y = rev (take (length x div 2) x) @ rev (drop (length x div 2) x))) \<and>
   (odd (length x) \<or> length x = 0 \<longrightarrow> (\<exists>e. half_flip x = Inl e))"
proof (intro conjI impI)
  assume a: "even (length x) \<and> 0 < length x"
  then show "\<exists>y. half_flip x = Inr y \<and> length y = length x \<and>
           y = rev (take (length x div 2) x) @ rev (drop (length x div 2) x)"
    using half_flip_even [of x] by simp
next
  assume "odd (length x) \<or> length x = 0"
  then show "\<exists>e. half_flip x = Inl e"
    using half_flip_odd [of x] half_flip_empty by auto
qed

theorem half_flip_defined_iff_witness:
  "half_flip [10, 20, 30, 40, 50, 60 :: nat] = Inr [30, 20, 10, 60, 50, 40] \<and>
   (\<exists>e. half_flip [10, 20, 30 :: nat] = Inl e)"
proof -
  have a: "\<exists>y. half_flip [10, 20, 30, 40, 50, 60 :: nat] = Inr y \<and> length y = 6 \<and>
      y = [30, 20, 10, 60, 50, 40]"
    using half_flip_defined_iff [of "[10, 20, 30, 40, 50, 60 :: nat]"] by simp
  have b: "\<exists>e. half_flip [10, 20, 30 :: nat] = Inl e"
    using half_flip_defined_iff [of "[10, 20, 30 :: nat]"] by simp
  from a b show ?thesis by auto
qed

text \<open>
  C10 as stated fails on a tensor of height zero, which is even: the split gives a
  single empty chunk and the unpacking raises.
\<close>

theorem half_flip_height_zero_counterexample:
  "even (length ([] :: nat list)) \<and> half_flip ([] :: nat list) = Inl ValueError"
  by (simp add: half_flip_def torch_split_def)

section \<open>The permutation of each flow in the two directions\<close>

lemma flips_agree_iff:
  "(\<forall>j < n_flow. synthesize_flip (reversed_position n_flow j) = forward_flip j)
     \<longleftrightarrow> n_flow = 0 \<or> n_flow = 9"
proof
  assume a: "\<forall>j < n_flow. synthesize_flip (reversed_position n_flow j) = forward_flip j"
  show "n_flow = 0 \<or> n_flow = 9"
  proof (rule ccontr)
    assume n: "\<not> (n_flow = 0 \<or> n_flow = 9)"
    then have z: "0 < n_flow" by simp
    from a z have "synthesize_flip (reversed_position n_flow 0) = forward_flip 0" by blast
    then have six: "6 \<le> n_flow"
      by (simp add: synthesize_flip_def forward_flip_def reversed_position_def split: if_splits)
    then have "synthesize_flip (reversed_position n_flow 3) = forward_flip 3"
      and "synthesize_flip (reversed_position n_flow 4) = forward_flip 4"
      using a by simp_all
    then have "n_flow = 9"
      by (simp add: synthesize_flip_def forward_flip_def reversed_position_def split: if_splits)
    with n show False by simp
  qed
next
  assume "n_flow = 0 \<or> n_flow = 9"
  then show "\<forall>j < n_flow. synthesize_flip (reversed_position n_flow j) = forward_flip j"
    by (auto simp: synthesize_flip_def forward_flip_def reversed_position_def)
qed

text \<open>
  C3 at eight flows: after flow 3 the forward pass applies the full reversal, and
  before inverting flow 3, which stands at position 4 of the reversed list, the
  inverse pass applies the half reversal. The two differ already on two slices.
\<close>

theorem flip_mismatch_at_flow_3:
  "forward_flip 3 = Full \<and> synthesize_flip (reversed_position 8 3) = Half \<and>
   apply_flip (forward_flip 3) [1, 2 :: nat] = Inr [2, 1] \<and>
   apply_flip (synthesize_flip (reversed_position 8 3)) [1, 2 :: nat] = Inr [1, 2]"
proof -
  have "half_flip [1, 2 :: nat] = Inr [1, 2]"
    using half_flip_even [of "[1, 2 :: nat]"] by simp
  then show ?thesis
    by (simp add: forward_flip_def synthesize_flip_def reversed_position_def apply_flip_def
        full_flip_def)
qed

section \<open>The receptive field\<close>


lemma pow2_mod_sum:
  assumes "0 < c"
  shows "sum_list (map (\<lambda>i. (2::int) ^ (i mod c)) [0..<n]) = int (n div c) * (2 ^ c - 1) + (2 ^ (n mod c) - 1)"
proof (induction n)
  case 0
  then show ?case by simp
next
  case (Suc n)
  show ?case
  proof (cases "Suc (n mod c) = c")
    case True
    then have m: "Suc n mod c = 0" and d: "Suc n div c = Suc (n div c)"
      using assms by (simp_all add: mod_Suc div_Suc)
    have p: "(2::int) ^ c = 2 * 2 ^ (n mod c)" using True by (metis power_Suc)
    show ?thesis using Suc m d p by (simp add: algebra_simps)
  next
    case False
    then have m: "Suc n mod c = Suc (n mod c)" and d: "Suc n div c = n div c"
      using assms by (simp_all add: mod_Suc div_Suc)
    show ?thesis using Suc m d by (simp add: algebra_simps)
  qed
qed

lemma int64_wrap_small:
  assumes "e \<le> 62"
  shows "int64_wrap (2 ^ e) = 2 ^ e"
proof -
  have "(2::int) ^ e \<le> 2 ^ 62" using assms by (intro power_increasing) simp_all
  then have "(0::int) \<le> 2 ^ e + 2 ^ 63" and "(2::int) ^ e + 2 ^ 63 < 2 ^ 64" by simp_all
  then have "((2::int) ^ e + 2 ^ 63) mod 2 ^ 64 = 2 ^ e + 2 ^ 63" by (rule mod_pos_pos_trivial)
  then show ?thesis by (simp add: int64_wrap_def)
qed

lemma stack_dilations_pow:
  assumes "0 < c" "c \<le> 63"
  shows "stack_dilations c n = map (\<lambda>i. 2 ^ (i mod c)) [0..<n]"
proof -
  have "i mod c \<le> 62" for i
  proof -
    have "i mod c < c" using assms(1) by simp
    then show ?thesis using assms(2) by simp
  qed
  then show ?thesis using assms(1) by (simp add: stack_dilations_def np_mod_def int64_wrap_small)
qed

text \<open>
  C8: for a positive cycle size the receptive field computed by the constructor is
  \<^verbatim>\<open>(kernel_size-1) * sum(2^(i mod cycle_size) for i in range(n_layer)) + 1\<close>, which
  has the closed form below; with at most 63 distinct exponents the dilation of
  layer \<^verbatim>\<open>i\<close> is \<^verbatim>\<open>2^(i mod cycle_size)\<close> and the sum is the sum of the stack's
  dilations. For sizes 3, 10 and 20 the value is 4093.
\<close>

theorem receptive_field_formula:
  "0 < cycle_size \<longrightarrow>
     receptive_field kernel_size cycle_size n_layer
       = Inr ((int kernel_size - 1) * (\<Sum>i<n_layer. 2 ^ (i mod cycle_size)) + 1) \<and>
     receptive_field kernel_size cycle_size n_layer
       = Inr ((int kernel_size - 1)
               * (int (n_layer div cycle_size) * (2 ^ cycle_size - 1)
                   + (2 ^ (n_layer mod cycle_size) - 1)) + 1) \<and>
     (cycle_size \<le> 63 \<longrightarrow>
        (\<forall>i<n_layer. stack_dilations cycle_size n_layer ! i = 2 ^ (i mod cycle_size)) \<and>
        receptive_field kernel_size cycle_size n_layer
          = Inr ((int kernel_size - 1) * sum_list (stack_dilations cycle_size n_layer) + 1))"
proof (intro impI conjI)
  assume c: "0 < cycle_size"
  have s: "sum_list (map (\<lambda>i. (2::int) ^ (i mod cycle_size)) [0..<n_layer])
      = (\<Sum>i<n_layer. 2 ^ (i mod cycle_size))"
    by (simp add: interv_sum_list_conv_sum_set_nat atLeast0LessThan)
  show "receptive_field kernel_size cycle_size n_layer
       = Inr ((int kernel_size - 1) * (\<Sum>i<n_layer. 2 ^ (i mod cycle_size)) + 1)"
    using c s by (simp add: receptive_field_def)
  show "receptive_field kernel_size cycle_size n_layer
       = Inr ((int kernel_size - 1)
               * (int (n_layer div cycle_size) * (2 ^ cycle_size - 1)
                   + (2 ^ (n_layer mod cycle_size) - 1)) + 1)"
    using c pow2_mod_sum [OF c, of n_layer] by (simp add: receptive_field_def)
  assume b: "cycle_size \<le> 63"
  show "\<forall>i<n_layer. stack_dilations cycle_size n_layer ! i = 2 ^ (i mod cycle_size)"
    by (simp add: stack_dilations_pow [OF c b])
  show "receptive_field kernel_size cycle_size n_layer
          = Inr ((int kernel_size - 1) * sum_list (stack_dilations cycle_size n_layer) + 1)"
    using c by (simp add: receptive_field_def stack_dilations_pow [OF c b])
qed

theorem receptive_field_formula_witness:
  "(0::nat) < 10 \<and> receptive_field 3 10 20 = Inr 4093"
proof -
  have pos: "(0::nat) < 10" by simp
  note closed = receptive_field_formula [of 10 3 20, THEN mp, OF pos, THEN conjunct2, THEN conjunct1]
  from closed show ?thesis by simp
qed

section \<open>The grid of a squeezed signal\<close>

lemma chunks_eq:
  assumes "0 < w"
  shows "length s = r * w \<Longrightarrow> chunks w s = map (\<lambda>j. take w (drop (j * w) s)) [0..<r]"
proof (induction r arbitrary: s)
  case 0
  then show ?case by (simp add: chunks.simps)
next
  case (Suc r)
  then have ne: "s \<noteq> []" using assms by auto
  have l: "length (drop w s) = r * w" using Suc.prems by simp
  have "chunks w s = take w s # chunks w (drop w s)"
    using assms ne by (subst chunks.simps) simp
  also have "chunks w (drop w s) = map (\<lambda>j. take w (drop (j * w) (drop w s))) [0..<r]"
    by (rule Suc.IH [OF l])
  also have "\<dots> = map (\<lambda>j. take w (drop (Suc j * w) s)) [0..<r]"
    by (simp add: add.commute)
  finally have c: "chunks w s = take w s # map (\<lambda>j. take w (drop (Suc j * w) s)) [0..<r]" .
  have u: "[0..<Suc r] = 0 # map Suc [0..<r]"
    by (simp add: upt_conv_Cons map_Suc_upt del: upt_Suc)
  show ?case unfolding u c by (simp add: o_def)
qed

lemma transpose_reshape_rows:
  assumes "0 < r" "0 < w" "length s = r * w"
  shows "transpose (reshape_rows r s) = map (\<lambda>i. map (\<lambda>j. s ! (j * w + i)) [0..<r]) [0..<w]"
proof -
  have d: "length s div r = w" using assms by simp
  let ?m = "map (\<lambda>j. take w (drop (j * w) s)) [0..<r]"
  have m: "reshape_rows r s = ?m"
    unfolding reshape_rows_def d by (rule chunks_eq [OF assms(2,3)])
  have len: "length (?m ! j) = w" if "j < r" for j
  proof -
    have "j * w + w \<le> r * w" using that
      by (metis Suc_leI mult_Suc mult_le_mono1 add.commute)
    then show ?thesis using that assms by simp
  qed
  have "transpose ?m = map (\<lambda>i. map (\<lambda>j. ?m ! j ! i) [0..<length ?m]) [0..<w]"
    by (rule transpose_rectangle) (use assms len in auto)
  also have "\<dots> = map (\<lambda>i. map (\<lambda>j. s ! (j * w + i)) [0..<r]) [0..<w]"
  proof -
    have "?m ! j ! i = s ! (j * w + i)" if "j < r" "i < w" for i j
    proof -
      have "j * w + w \<le> r * w" using that
        by (metis Suc_leI mult_Suc mult_le_mono1 add.commute)
      then show ?thesis using that assms by simp
    qed
    then show ?thesis by simp
  qed
  finally show ?thesis using m by simp
qed

lemma squeeze_ok:
  assumes h: "0 < hp_h" and L: "0 < L" and d: "hp_h dvd L" and B: "0 < B" and C: "0 < C"
    and sh: "has_shape3 B C L c"
  shows "squeeze hp_h c
    = Inr (map (map (\<lambda>s. map (\<lambda>i. map (\<lambda>j. s ! (j * hp_h + i)) [0..<L div hp_h]) [0..<hp_h])) c)"
proof -
  have c0: "c \<noteq> []" using sh B by (auto simp: has_shape3_def)
  then have hc: "hd c \<in> set c" by simp
  then have hc0: "hd c \<noteq> []" using sh C by (auto simp: has_shape3_def)
  then have "hd (hd c) \<in> set (hd c)" by simp
  then have lh: "length (hd (hd c)) = L" using sh hc by (auto simp: has_shape3_def)
  let ?r = "L div hp_h"
  have "hp_h \<le> L" using d L by (simp add: dvd_imp_le)
  then have r0: "0 < ?r" using h by (simp add: div_greater_zero_iff)
  have rL: "?r * hp_h = L" using d by simp
  then have rd: "?r dvd L" by (metis dvd_triv_left)
  have "transpose (reshape_rows ?r s) = map (\<lambda>i. map (\<lambda>j. s ! (j * hp_h + i)) [0..<?r]) [0..<hp_h]"
    if "length s = L" for s
    by (rule transpose_reshape_rows [OF r0 h]) (use that rL in simp)
  then have "map (map (\<lambda>s. transpose (reshape_rows ?r s))) c
    = map (map (\<lambda>s. map (\<lambda>i. map (\<lambda>j. s ! (j * hp_h + i)) [0..<?r]) [0..<hp_h])) c"
    using sh by (auto simp: has_shape3_def)
  then show ?thesis
    using h c0 hc0 lh r0 rd by (simp add: squeeze_def Let_def)
qed

lemma squeeze_signal_shape3:
  assumes "length x = B" "\<forall>xb \<in> set x. length xb = L"
  shows "has_shape3 B 1 L (map (\<lambda>xb. [xb]) x)"
  using assms by (auto simp: has_shape3_def)

lemma squeeze_entries:
  assumes "0 < hp_h" "0 < L" "hp_h dvd L" "0 < B" "0 < C" "has_shape3 B C L c"
  shows "\<exists>g. squeeze hp_h c = Inr g \<and> has_shape4 B C hp_h (L div hp_h) g \<and>
        (\<forall>b<B. \<forall>ch<C. \<forall>i<hp_h. \<forall>j<L div hp_h. g ! b ! ch ! i ! j = c ! b ! ch ! (j * hp_h + i))"
proof -
  let ?g = "map (map (\<lambda>s. map (\<lambda>i. map (\<lambda>j. s ! (j * hp_h + i)) [0..<L div hp_h]) [0..<hp_h])) c"
  have g: "squeeze hp_h c = Inr ?g" by (rule squeeze_ok [OF assms])
  have s: "has_shape4 B C hp_h (L div hp_h) ?g"
    using assms(6) by (auto simp: has_shape3_def has_shape4_def)
  have lb: "length c = B" and lc: "\<And>b. b < B \<Longrightarrow> length (c ! b) = C"
    using assms(6) by (auto simp: has_shape3_def)
  have e: "\<forall>b<B. \<forall>ch<C. \<forall>i<hp_h. \<forall>j<L div hp_h. ?g ! b ! ch ! i ! j = c ! b ! ch ! (j * hp_h + i)"
    using lb lc by simp
  from g s e show ?thesis by blast
qed

text \<open>
  C5, as the code has it: for a positive squeeze factor that divides the positive
  length \<^verbatim>\<open>L\<close>, the conditioning (and, with one channel, the signal) becomes a grid
  whose height, the axis that is flipped and scanned, has extent \<^verbatim>\<open>hp.h\<close> and whose
  width has extent \<^verbatim>\<open>L / hp.h\<close>; sample \<^verbatim>\<open>k\<close> lies at height \<^verbatim>\<open>k mod hp.h\<close> and width
  \<^verbatim>\<open>k div hp.h\<close>.
\<close>

theorem squeeze_grid_shape:
  "0 < hp_h \<and> 0 < L \<and> hp_h dvd L \<and> 0 < B \<longrightarrow>
     (0 < C \<and> has_shape3 B C L c \<longrightarrow>
        (\<exists>g. squeeze hp_h c = Inr g \<and> has_shape4 B C hp_h (L div hp_h) g \<and>
          (\<forall>b<B. \<forall>ch<C. \<forall>i<hp_h. \<forall>j<L div hp_h.
              g ! b ! ch ! i ! j = c ! b ! ch ! (j * hp_h + i)))) \<and>
     (length x = B \<and> (\<forall>xb \<in> set x. length xb = L) \<longrightarrow>
        (\<exists>g. squeeze_signal hp_h x = Inr g \<and> has_shape4 B 1 hp_h (L div hp_h) g \<and>
          (\<forall>b<B. \<forall>i<hp_h. \<forall>j<L div hp_h. g ! b ! 0 ! i ! j = x ! b ! (j * hp_h + i))))"
proof (intro impI conjI)
  assume a: "0 < hp_h \<and> 0 < L \<and> hp_h dvd L \<and> 0 < B"
  {
    assume b: "0 < C \<and> has_shape3 B C L c"
    show "\<exists>g. squeeze hp_h c = Inr g \<and> has_shape4 B C hp_h (L div hp_h) g \<and>
          (\<forall>b<B. \<forall>ch<C. \<forall>i<hp_h. \<forall>j<L div hp_h.
              g ! b ! ch ! i ! j = c ! b ! ch ! (j * hp_h + i))"
      using squeeze_entries [of hp_h L B C c] a b by blast
  }
  {
    assume b: "length x = B \<and> (\<forall>xb \<in> set x. length xb = L)"
    then have s: "has_shape3 B 1 L (map (\<lambda>xb. [xb]) x)"
      using squeeze_signal_shape3 [of x B L] by blast
    from squeeze_entries [of hp_h L B 1 "map (\<lambda>xb. [xb]) x"] a s
    obtain g where g: "squeeze hp_h (map (\<lambda>xb. [xb]) x) = Inr g"
      "has_shape4 B 1 hp_h (L div hp_h) g"
      "\<forall>b<B. \<forall>ch<1. \<forall>i<hp_h. \<forall>j<L div hp_h.
          g ! b ! ch ! i ! j = map (\<lambda>xb. [xb]) x ! b ! ch ! (j * hp_h + i)"
      by auto
    have "\<forall>b<B. \<forall>i<hp_h. \<forall>j<L div hp_h. g ! b ! 0 ! i ! j = x ! b ! (j * hp_h + i)"
      using g(3) b by simp
    with g(1,2)
    show "\<exists>g. squeeze_signal hp_h x = Inr g \<and> has_shape4 B 1 hp_h (L div hp_h) g \<and>
          (\<forall>b<B. \<forall>i<hp_h. \<forall>j<L div hp_h. g ! b ! 0 ! i ! j = x ! b ! (j * hp_h + i))"
      by (auto simp: squeeze_signal_def)
  }
qed

theorem squeeze_grid_shape_witness:
  "\<exists>g. squeeze_signal 2 [[0, 1, 2, 3, 4, 5 :: nat]] = Inr g \<and> has_shape4 1 1 2 3 g \<and>
     g ! 0 ! 0 ! 1 ! 2 = 5"
proof -
  have a: "(0::nat) < 2 \<and> (0::nat) < 6 \<and> (2::nat) dvd 6 \<and> (0::nat) < 1" by simp
  have b: "length [[0, 1, 2, 3, 4, 5 :: nat]] = 1 \<and>
      (\<forall>xb \<in> set [[0, 1, 2, 3, 4, 5 :: nat]]. length xb = 6)" by simp
  from squeeze_grid_shape [of 2 6 1 1 "[]" "[[0, 1, 2, 3, 4, 5 :: nat]]", THEN mp, OF a,
      THEN conjunct2, THEN mp, OF b]
  obtain g where g: "squeeze_signal 2 [[0, 1, 2, 3, 4, 5 :: nat]] = Inr g"
    "has_shape4 1 1 2 (6 div 2) g"
    "\<forall>b<1. \<forall>i<2. \<forall>j<6 div 2. g ! b ! 0 ! i ! j = [[0, 1, 2, 3, 4, 5 :: nat]] ! b ! (j * 2 + i)"
    by blast
  from g(3) have "g ! 0 ! 0 ! 1 ! 2 = [[0, 1, 2, 3, 4, 5 :: nat]] ! 0 ! (2 * 2 + 1)" by simp
  then have "g ! 0 ! 0 ! 1 ! 2 = 5" by simp
  with g(1,2) show ?thesis by auto
qed

text \<open>
  C5 as stated fails for six samples squeezed by two: the grid has two rows along
  the height axis and three columns, not three rows and two columns.
\<close>

theorem squeeze_extents_counterexample:
  "squeeze_signal 2 [[0, 1, 2, 3, 4, 5 :: nat]] = Inr [[[[0, 2, 4], [1, 3, 5]]]] \<and>
   \<not> has_shape4 1 1 (6 div 2) 2 [[[[0, 2, 4], [1, 3, 5 :: nat]]]]"
proof -
  have s: "has_shape3 1 1 6 [[[0, 1, 2, 3, 4, 5 :: nat]]]" by (simp add: has_shape3_def)
  have u3: "[0..<3] = [0, 1, 2]" and u2: "[0..<2] = [0, 1]" by (simp_all add: upt_conv_Cons)
  have "squeeze 2 [[[0, 1, 2, 3, 4, 5 :: nat]]] = Inr [[[[0, 2, 4], [1, 3, 5]]]]"
    using squeeze_ok [of 2 6 1 1, OF _ _ _ _ _ s] by (simp add: u2 u3)
  then show ?thesis by (simp add: squeeze_signal_def has_shape4_def)
qed

section \<open>The clamp of the forward pass\<close>








section \<open>The running pair of the forward pass\<close>

lemma affine_level:
  fixes A M :: "'a \<Rightarrow> 'a \<Rightarrow> 'a" and E :: "'a \<Rightarrow> 'a"
  assumes "\<And>l g v gm m. A (M (E l) (A (M (E g) v) gm)) m = A (M (E (A g l)) v) (A (M gm (E l)) m)"
  shows "map2 A (map2 M (map E l) (map2 A (map2 M (map E g) v) gm)) m
       = map2 A (map2 M (map E (map2 A g l)) v) (map2 A (map2 M gm (map E l)) m)"
proof (induction l arbitrary: g v gm m)
  case Nil
  then show ?case by simp
next
  case (Cons a l)
  show ?case
    by (cases g; cases v; cases gm; cases m) (simp_all add: assms Cons.IH)
qed

lemma affine_real: 
  "exp l * (exp g * v + gm) + m = exp (g + l) * v + (gm * exp l + m)" for l g v gm m :: real
  by (simp add: exp_add algebra_simps)

lemma affine_slice:
  fixes l g v gm m :: "real list list list"
  shows "lift2 (+) (lift2 (*) (lift1 exp l) (lift2 (+) (lift2 (*) (lift1 exp g) v) gm)) m
       = lift2 (+) (lift2 (*) (lift1 exp (lift2 (+) g l)) v) (lift2 (+) (lift2 (*) gm (lift1 exp l)) m)"
  unfolding lift1_def lift2_def
  by (rule affine_level, rule affine_level, rule affine_level, rule affine_real)

lemma affine_tensor:
  fixes l g v gm m :: "real list list list tensor"
  shows "map2 (lift2 (+)) (map2 (lift2 (*)) (map (lift1 exp) l)
            (map2 (lift2 (+)) (map2 (lift2 (*)) (map (lift1 exp) g) v) gm)) m
       = map2 (lift2 (+)) (map2 (lift2 (*)) (map (lift1 exp) (map2 (lift2 (+)) g l)) v)
            (map2 (lift2 (+)) (map2 (lift2 (*)) gm (map (lift1 exp) l)) m)"
  by (rule affine_level, rule affine_slice)


lemma affine_map_real:
  assumes "length l = length v" "length m = length v"
  shows "affine_map (real_torch B W r h) (m, l) v
       = Inr (map2 (lift2 (+)) (map2 (lift2 (*)) (map (lift1 exp) l) v) m)"
  using assms by (simp add: affine_map_def broadcast2_def real_torch_def)

lemma forward_step_global:
  assumes "forward_step (real_torch B W r h) i flow (x, c, Some (gm, gl)) = Inr ((x1, c1, g1), (m, l))"
    and "length gm = n" "length gl = n" "length m = n" "length l = n"
  shows "g1 = Some (map2 (lift2 (+)) (map2 (lift2 (*)) gm (map (lift1 exp) l)) m,
                    map2 (lift2 (+)) gl l)"
  using assms
  by (auto simp: forward_step_def Let_def bindE_eq_Inr broadcast2_def real_torch_def
      split: prod.splits)

lemma forward_step_first:
  assumes "forward_step T i flow (x, c, None) = Inr ((x1, c1, g1), p)"
  shows "g1 = Some p"
  using assms
  by (auto simp: forward_step_def Let_def bindE_eq_Inr split: prod.splits)

lemma forward_loop_global:
  assumes "forward_loop (real_torch B W r h) i fls (x, c, Some (gm, gl)) = Inr ((x1, c1, g1), ps)"
    and "length gm = length v" "length gl = length v"
    and "\<forall>(m, l) \<in> set ps. length m = length v \<and> length l = length v"
  shows "\<exists>gm1 gl1. g1 = Some (gm1, gl1) \<and> length gm1 = length v \<and> length gl1 = length v \<and>
           bindE (affine_map (real_torch B W r h) (gm, gl) v) (compose_affine (real_torch B W r h) ps)
             = affine_map (real_torch B W r h) (gm1, gl1) v"
  using assms
proof (induction fls arbitrary: i x c gm gl ps)
  case Nil
  then have "g1 = Some (gm, gl)" and "ps = []" by auto
  then show ?case using Nil.prems(2,3) by (cases "affine_map (real_torch B W r h) (gm, gl) v") auto
next
  case (Cons flow fls)
  let ?T = "real_torch B W r h"
  from Cons.prems(1) obtain st2 p st3 ps1 where
    s: "forward_step ?T i flow (x, c, Some (gm, gl)) = Inr (st2, p)"
    and lp: "forward_loop ?T (Suc i) fls st2 = Inr (st3, ps1)"
    and e: "ps = p # ps1" and e3: "st3 = (x1, c1, g1)"
    by (auto simp: bindE_eq_Inr)
  obtain x2 c2 g2 where st2: "st2 = (x2, c2, g2)" by (cases st2) auto
  obtain m l where p: "p = (m, l)" by (cases p) auto
  have lm: "length m = length v" and ll: "length l = length v"
    using Cons.prems(4) e p by auto
  let ?gm = "map2 (lift2 (+)) (map2 (lift2 (*)) gm (map (lift1 exp) l)) m"
  let ?gl = "map2 (lift2 (+)) gl l"
  have g2: "g2 = Some (?gm, ?gl)"
    using forward_step_global [OF s [unfolded st2 p] Cons.prems(2,3) lm ll] .
  have lg: "length ?gm = length v" "length ?gl = length v"
    using Cons.prems(2,3) lm ll by simp_all
  have rest: "\<forall>(m, l) \<in> set ps1. length m = length v \<and> length l = length v"
    using Cons.prems(4) e by auto
  from Cons.IH [OF lp [unfolded st2 g2 e3] lg rest]
  obtain gm1 gl1 where r: "g1 = Some (gm1, gl1)" "length gm1 = length v" "length gl1 = length v"
    "bindE (affine_map ?T (?gm, ?gl) v) (compose_affine ?T ps1) = affine_map ?T (gm1, gl1) v"
    by blast
  let ?u = "map2 (lift2 (+)) (map2 (lift2 (*)) (map (lift1 exp) gl) v) gm"
  have u: "affine_map ?T (gm, gl) v = Inr ?u"
    using Cons.prems(2,3) by (simp add: affine_map_real)
  have lu: "length ?u = length v" using Cons.prems(2,3) by simp
  have "affine_map ?T (m, l) ?u = Inr (map2 (lift2 (+)) (map2 (lift2 (*)) (map (lift1 exp) l) ?u) m)"
    using lm ll lu by (simp add: affine_map_real)
  also have "\<dots> = Inr (map2 (lift2 (+)) (map2 (lift2 (*)) (map (lift1 exp) ?gl) v) ?gm)"
    by (simp only: affine_tensor)
  also have "\<dots> = affine_map ?T (?gm, ?gl) v"
    using lg by (simp add: affine_map_real)
  finally have "affine_map ?T (m, l) ?u = affine_map ?T (?gm, ?gl) v" .
  then have "bindE (affine_map ?T (gm, gl) v) (compose_affine ?T ps)
      = bindE (affine_map ?T (?gm, ?gl) v) (compose_affine ?T ps1)"
    by (simp add: u e p)
  with r show ?case by simp
qed

text \<open>
  C4, as the code has it: after any number of flows the running pair is the
  composition of the affine maps \<^verbatim>\<open>v -> exp(logvar) * v + mean\<close> of the flows processed so
  far, entry by entry: applying those maps one after the other to a tensor of the
  signal's height gives \<^verbatim>\<open>exp(global_logvar) * v + global_mean\<close>. The permutations
  that the signal undergoes between the flows are not part of the pair.
\<close>

theorem global_pair_composes:
  "forward_loop (real_torch B W r h) 0 fls (x, c, None) = Inr ((x1, c1, g1), ps) \<and> fls \<noteq> [] \<and>
   (\<forall>(mean, logvar) \<in> set ps. length mean = length v \<and> length logvar = length v) \<longrightarrow>
     (\<exists>global_mean global_logvar y. g1 = Some (global_mean, global_logvar) \<and>
        compose_affine (real_torch B W r h) ps v = Inr y \<and>
        affine_map (real_torch B W r h) (global_mean, global_logvar) v = Inr y)"
proof
  let ?T = "real_torch B W r h"
  assume a: "forward_loop ?T 0 fls (x, c, None) = Inr ((x1, c1, g1), ps) \<and> fls \<noteq> [] \<and>
   (\<forall>(mean, logvar) \<in> set ps. length mean = length v \<and> length logvar = length v)"
  then obtain flow fls1 where f: "fls = flow # fls1" by (cases fls) auto
  from a f obtain st2 p st3 ps1 where
    s: "forward_step ?T 0 flow (x, c, None) = Inr (st2, p)"
    and lp: "forward_loop ?T (Suc 0) fls1 st2 = Inr (st3, ps1)"
    and e: "ps = p # ps1" and e3: "st3 = (x1, c1, g1)"
    by (auto simp: bindE_eq_Inr)
  obtain x2 c2 g2 where st2: "st2 = (x2, c2, g2)" by (cases st2) auto
  obtain m l where p: "p = (m, l)" by (cases p) auto
  have g2: "g2 = Some (m, l)" using forward_step_first [OF s [unfolded st2]] p by simp
  have lm: "length m = length v" and ll: "length l = length v" using a e p by auto
  have rest: "\<forall>(m, l) \<in> set ps1. length m = length v \<and> length l = length v"
    using a e by auto
  from forward_loop_global [OF lp [unfolded st2 g2 e3] lm ll rest]
  obtain gm1 gl1 where r: "g1 = Some (gm1, gl1)" "length gm1 = length v" "length gl1 = length v"
    "bindE (affine_map ?T (m, l) v) (compose_affine ?T ps1) = affine_map ?T (gm1, gl1) v"
    by blast
  have c: "compose_affine ?T ps v = affine_map ?T (gm1, gl1) v"
    using r(4) by (simp add: e p)
  have "\<exists>y. affine_map ?T (gm1, gl1) v = Inr y"
    using r(2,3) by (simp add: affine_map_real)
  with r(1) c
  show "\<exists>global_mean global_logvar y. g1 = Some (global_mean, global_logvar) \<and>
        compose_affine ?T ps v = Inr y \<and> affine_map ?T (global_mean, global_logvar) v = Inr y"
    by auto
qed

section \<open>The two evaluations of a stack\<close>

lemma broadcast2_same [simp]:
  "length a = length b \<Longrightarrow> broadcast2 f a b = Inr (map2 f a b)"
  by (simp add: broadcast2_def)

lemma block_size_pos: "0 < block_size k blk"
  by (simp add: block_size_def)

lemma block_window_length:
  assumes "t < length rs"
  shows "length (block_window T k blk rs t) = block_size k blk"
proof -
  have "block_size k blk \<le> block_size k blk - 1 + length rs - t"
    using assms block_size_pos [of k blk] by linarith
  then show ?thesis by (simp add: block_window_def)
qed

lemma block_window_nth:
  assumes "t < length rs" "q < block_size k blk"
  shows "block_window T k blk rs t ! q = (replicate (block_size k blk - 1) (zero_res T) @ rs) ! (t + q)"
proof -
  let ?X = "replicate (block_size k blk - 1) (zero_res T) @ rs"
  have t: "t \<le> length ?X" using assms(1) by simp
  have "take (block_size k blk) (drop t ?X) ! q = drop t ?X ! q"
    using assms(2) by (rule nth_take)
  also have "\<dots> = ?X ! (t + q)" using t by (rule nth_drop)
  finally show ?thesis by (simp only: block_window_def)
qed

lemma block_window_last:
  assumes "t < length rs"
  shows "last (block_window T k blk rs t) = rs ! t"
proof -
  let ?m = "block_size k blk"
  have m: "0 < ?m" by (rule block_size_pos)
  have len: "length (block_window T k blk rs t) = ?m" by (rule block_window_length [OF assms])
  then have "0 < length (block_window T k blk rs t)" using m by simp
  then have ne: "block_window T k blk rs t \<noteq> []" by auto
  have "last (block_window T k blk rs t) = block_window T k blk rs t ! (?m - 1)"
    using ne len by (simp add: last_conv_nth)
  also have "\<dots> = (replicate (?m - 1) (zero_res T) @ rs) ! (t + (?m - 1))"
    by (rule block_window_nth [OF assms]) (use m in simp)
  also have "\<dots> = rs ! t" by (simp add: nth_append)
  finally show ?thesis .
qed

lemma conv2d_rows:
  assumes "0 < kh" "0 < dil" "(kh - 1) * dil + 1 \<le> length x + 2 * pad"
  shows "conv2d w kh dil pad zero x
       = Inr (map (\<lambda>t. w (map (\<lambda>j. (replicate pad zero @ x @ replicate pad zero) ! (t + j * dil)) [0..<kh]))
               [0..<length x + 2 * pad - (kh - 1) * dil])"
proof -
  let ?xp = "replicate pad zero @ x @ replicate pad zero"
  have n: "length ?xp - ((kh - 1) * dil + 1) + 1 = length x + 2 * pad - (kh - 1) * dil"
    using assms by simp
  have c: "\<not> (kh = 0 \<or> dil = 0 \<or> length ?xp < (kh - 1) * dil + 1)"
    using assms by simp
  show ?thesis unfolding conv2d_def Let_def n using c by (simp only: if_False)
qed

lemma taps_window:
  assumes "t < length rs" "j < k" "0 < k"
  shows "(replicate ((k - 1) * dilation blk) (zero_res T) @ rs @ replicate ((k - 1) * dilation blk) (zero_res T))
           ! (t + j * dilation blk)
       = block_window T k blk rs t ! (j * dilation blk)"
proof -
  let ?d = "dilation blk"
  let ?ph = "(k - 1) * ?d"
  let ?z = "zero_res T"
  have "j \<le> k - 1" using assms(2) by simp
  then have jd: "j * ?d \<le> ?ph" by (rule mult_le_mono1)
  have m1: "block_size k blk - 1 = ?ph" by (simp add: block_size_def)
  have q: "j * ?d < block_size k blk" unfolding block_size_def using jd by linarith
  have "block_window T k blk rs t ! (j * ?d)
      = (replicate (block_size k blk - 1) ?z @ rs) ! (t + j * ?d)"
    by (rule block_window_nth [OF assms(1) q])
  then have e: "block_window T k blk rs t ! (j * ?d) = (replicate ?ph ?z @ rs) ! (t + j * ?d)"
    by (simp only: m1)
  have "length (replicate ?ph ?z @ rs) = ?ph + length rs" by simp
  then have lt: "t + j * ?d < length (replicate ?ph ?z @ rs)" using assms(1) jd by linarith
  have "(replicate ?ph ?z @ rs @ replicate ?ph ?z) ! (t + j * ?d)
      = ((replicate ?ph ?z @ rs) @ replicate ?ph ?z) ! (t + j * ?d)" by simp
  also have "\<dots> = (replicate ?ph ?z @ rs) ! (t + j * ?d)"
    using lt by (rule nth_append_left)
  finally show ?thesis using e by simp
qed

lemma block_conv_parallel:
  assumes ok: "block_ok k blk" and k: "2 \<le> k"
  shows "bindE (conv2d (initial_conv blk) k (dilation blk) (padding_h blk) (zero_res T) rs)
            (\<lambda>y. Inr (drop_last (padding_h blk) y))
       = Inr (map (\<lambda>t. initial_conv blk (map (\<lambda>j. block_window T k blk rs t ! (j * dilation blk)) [0..<k]))
               [0..<length rs])"
proof -
  let ?d = "dilation blk"
  let ?ph = "(k - 1) * ?d"
  have d: "0 < ?d" and p: "padding_h blk = ?ph" using ok by (auto simp: block_ok_def)
  have ph: "0 < ?ph" using d k by simp
  let ?xp = "replicate ?ph (zero_res T) @ rs @ replicate ?ph (zero_res T)"
  let ?f = "\<lambda>t. initial_conv blk (map (\<lambda>j. ?xp ! (t + j * ?d)) [0..<k])"
  have c: "conv2d (initial_conv blk) k ?d ?ph (zero_res T) rs = Inr (map ?f [0..<length rs + 2 * ?ph - ?ph])"
  proof (rule conv2d_rows)
    show "0 < k" using k by simp
    show "0 < ?d" by (rule d)
    show "(k - 1) * ?d + 1 \<le> length rs + 2 * ?ph" using ph by linarith
  qed
  have "drop_last ?ph (map ?f [0..<length rs + 2 * ?ph - ?ph]) = map ?f [0..<length rs]"
    using ph by (simp add: drop_last_def take_map)
  also have "\<dots> = map (\<lambda>t. initial_conv blk (map (\<lambda>j. block_window T k blk rs t ! (j * ?d)) [0..<k])) [0..<length rs]"
  proof (rule map_cong [OF refl])
    fix t assume "t \<in> set [0..<length rs]"
    then have t: "t < length rs" by simp
    have "map (\<lambda>j. ?xp ! (t + j * ?d)) [0..<k] = map (\<lambda>j. block_window T k blk rs t ! (j * ?d)) [0..<k]"
      by (rule map_cong [OF refl]) (use taps_window [OF t] k in simp)
    then show "?f t = initial_conv blk (map (\<lambda>j. block_window T k blk rs t ! (j * ?d)) [0..<k])"
      by (rule arg_cong)
  qed
  finally show ?thesis using c p by simp
qed


lemma block_conv_parallel_ex:
  assumes ok: "block_ok k blk" and k: "2 \<le> k"
  shows "\<exists>y. conv2d (initial_conv blk) k (dilation blk) (padding_h blk) (zero_res T) rs = Inr y \<and>
           drop_last (padding_h blk) y
             = map (\<lambda>t. initial_conv blk (map (\<lambda>j. block_window T k blk rs t ! (j * dilation blk)) [0..<k]))
                 [0..<length rs]"
  using block_conv_parallel [OF assms, of T rs] by (auto simp: bindE_eq_Inr)

lemma block_row_fst:
  "fst (block_row T k blk w c_t)
     = t_add T (resconv blk (t_mul T
         (t_tanh T (t_add T (fst (t_split_hidden T (initial_conv blk (map (\<lambda>j. w ! (j * dilation blk)) [0..<k]))))
                            (fst (t_split_hidden T (cdtconv blk c_t)))))
         (t_sigmoid T (t_add T (snd (t_split_hidden T (initial_conv blk (map (\<lambda>j. w ! (j * dilation blk)) [0..<k]))))
                               (snd (t_split_hidden T (cdtconv blk c_t)))))))
       (last w)"
  by (simp add: block_row_def Let_def)

lemma block_row_snd:
  "snd (block_row T k blk w c_t)
     = skipconv blk (t_mul T
         (t_tanh T (t_add T (fst (t_split_hidden T (initial_conv blk (map (\<lambda>j. w ! (j * dilation blk)) [0..<k]))))
                            (fst (t_split_hidden T (cdtconv blk c_t)))))
         (t_sigmoid T (t_add T (snd (t_split_hidden T (initial_conv blk (map (\<lambda>j. w ! (j * dilation blk)) [0..<k]))))
                               (snd (t_split_hidden T (cdtconv blk c_t))))))"
  by (simp add: block_row_def Let_def)

lemma length_block_rows [simp]: "length (block_rows T k blk rs cs) = length rs"
  by (simp add: block_rows_def)

lemma block_rows_nth:
  "t < length rs \<Longrightarrow> block_rows T k blk rs cs ! t = block_row T k blk (block_window T k blk rs t) (cs ! t)"
  by (simp add: block_rows_def)

lemma ResidualBlock_forward_parallel:
  assumes ok: "block_ok k blk" and icp: "initial_conv_padding blk = padding_h blk"
    and k: "2 \<le> k" and len: "length cs = length rs"
  shows "ResidualBlock_forward T k blk rs cs False
       = Inr (blk, map fst (block_rows T k blk rs cs), map snd (block_rows T k blk rs cs))"
proof -
  let ?Y = "map (\<lambda>t. initial_conv blk (map (\<lambda>j. block_window T k blk rs t ! (j * dilation blk)) [0..<k]))
                 [0..<length rs]"
  from block_conv_parallel_ex [OF ok k, of T rs] obtain y where
    y: "conv2d (initial_conv blk) k (dilation blk) (padding_h blk) (zero_res T) rs = Inr y"
    and d: "drop_last (padding_h blk) y = ?Y" by blast
  let ?c1 = "map (cdtconv blk) cs"
  let ?a = "map2 (t_add T) (map (fst \<circ> t_split_hidden T) ?Y) (map (fst \<circ> t_split_hidden T) ?c1)"
  let ?b = "map2 (t_add T) (map (snd \<circ> t_split_hidden T) ?Y) (map (snd \<circ> t_split_hidden T) ?c1)"
  let ?x2 = "map2 (t_mul T) (map (t_tanh T) ?a) (map (t_sigmoid T) ?b)"
  have run: "ResidualBlock_forward T k blk rs cs False
      = Inr (blk, map2 (t_add T) (map (resconv blk) ?x2) rs, map (skipconv blk) ?x2)"
    using len by (simp add: ResidualBlock_forward_def Let_def icp y d)
  have r: "map2 (t_add T) (map (resconv blk) ?x2) rs = map fst (block_rows T k blk rs cs)"
  proof (rule nth_equalityI)
    show "length (map2 (t_add T) (map (resconv blk) ?x2) rs) = length (map fst (block_rows T k blk rs cs))"
      using len by simp
  next
    fix t assume "t < length (map2 (t_add T) (map (resconv blk) ?x2) rs)"
    then have t: "t < length rs" using len by simp
    then show "map2 (t_add T) (map (resconv blk) ?x2) rs ! t = map fst (block_rows T k blk rs cs) ! t"
      using len by (simp add: block_rows_nth block_row_fst block_window_last)
  qed
  have s: "map (skipconv blk) ?x2 = map snd (block_rows T k blk rs cs)"
  proof (rule nth_equalityI)
    show "length (map (skipconv blk) ?x2) = length (map snd (block_rows T k blk rs cs))"
      using len by simp
  next
    fix t assume "t < length (map (skipconv blk) ?x2)"
    then have t: "t < length rs" using len by simp
    then show "map (skipconv blk) ?x2 ! t = map snd (block_rows T k blk rs cs) ! t"
      using len by (simp add: block_rows_nth block_row_snd)
  qed
  show ?thesis using run r s by simp
qed



lemma stack_layers_lengths:
  "(R, S) \<in> set (stack_layers T k blks rs cs) \<Longrightarrow> length R = length rs \<and> length S = length rs"
  by (induction blks arbitrary: rs) auto

lemma length_stack_layers [simp]: "length (stack_layers T k blks rs cs) = length blks"
  by (induction blks arbitrary: rs) auto

lemma forward_blocks_parallel:
  assumes "\<forall>blk \<in> set blks. block_ok k blk \<and> initial_conv_padding blk = padding_h blk"
    and "2 \<le> k" and "length cs = length rs"
  shows "forward_blocks T k blks rs cs = Inr (map snd (stack_layers T k blks rs cs))"
  using assms
proof (induction blks arbitrary: rs)
  case Nil
  then show ?case by simp
next
  case (Cons blk blks)
  have b: "ResidualBlock_forward T k blk rs cs False
      = Inr (blk, map fst (block_rows T k blk rs cs), map snd (block_rows T k blk rs cs))"
    by (rule ResidualBlock_forward_parallel) (use Cons.prems in auto)
  have "forward_blocks T k blks (map fst (block_rows T k blk rs cs)) cs
      = Inr (map snd (stack_layers T k blks (map fst (block_rows T k blk rs cs)) cs))"
    by (rule Cons.IH) (use Cons.prems in auto)
  then show ?case using b by simp
qed

lemma sum_from_rows:
  assumes "\<forall>s \<in> set ss. length s = length acc"
  shows "sum_from T acc ss = Inr (sum_rows T acc ss) \<and> length (sum_rows T acc ss) = length acc"
  using assms by (induction ss arbitrary: acc) auto

lemma nth_append_take:
  assumes "i < length A + n"
  shows "(A @ take n xs) ! i = (A @ xs) ! i"
  using assms by (auto simp: nth_append)

lemma nth_append_middle:
  assumes "i < length A + length xs"
  shows "(A @ xs @ B) ! i = (A @ xs) ! i"
  using assms by (auto simp: nth_append)

lemma first_conv_parallel:
  "\<exists>y. conv2d (first_conv stk) 2 1 2 (zero_in T) xs = Inr y \<and>
        map (t_tanh T) (take (length y - 3) y) = first_rows T stk xs"
proof -
  let ?z = "zero_in T"
  let ?xp = "replicate 2 ?z @ xs @ replicate 2 ?z"
  let ?f = "\<lambda>t. first_conv stk (map (\<lambda>j. ?xp ! (t + j * 1)) [0..<2])"
  define y where "y = map ?f [0..<length xs + 3]"
  have n: "length xs + 2 * 2 - (2 - 1) * 1 = length xs + 3" by simp
  have "conv2d (first_conv stk) 2 1 2 ?z xs = Inr (map ?f [0..<length xs + 2 * 2 - (2 - 1) * 1])"
    by (rule conv2d_rows) simp_all
  then have c: "conv2d (first_conv stk) 2 1 2 ?z xs = Inr y" by (simp only: n y_def)
  have u: "[0..<2] = [0, Suc 0]" by (simp add: upt_conv_Cons)
  have ly: "length y - 3 = length xs" by (simp add: y_def)
  have "take (length xs) y = map ?f [0..<length xs]"
    unfolding y_def by (simp add: take_map del: upt_Suc)
  then have "map (t_tanh T) (take (length y - 3) y) = map (\<lambda>t. t_tanh T (?f t)) [0..<length xs]"
    by (simp add: ly)
  also have "\<dots> = first_rows T stk xs"
    unfolding first_rows_def
  proof (rule map_cong [OF refl])
    fix t assume "t \<in> set [0..<length xs]"
    then have t: "t < length xs" by simp
    have a: "?xp ! t = (replicate 2 ?z @ xs) ! t"
      by (rule nth_append_middle) (use t in simp)
    have b: "?xp ! Suc t = (replicate 2 ?z @ xs) ! Suc t"
      by (rule nth_append_middle) (use t in simp)
    show "t_tanh T (?f t) = t_tanh T (first_conv stk [(replicate 2 ?z @ xs) ! t, (replicate 2 ?z @ xs) ! (t + 1)])"
      using a b by (simp add: u)
  qed
  finally show ?thesis using c by blast
qed

lemma ResidualStack_forward_parallel:
  assumes "parallel_ready k stk" "2 \<le> k" "length cs = length xs"
  shows "ResidualStack_forward T k stk xs cs = Inr (coupling_rows T k stk xs cs)"
proof -
  have p: "first_conv_padding stk = 2" and ne: "stack stk \<noteq> []"
    and bl: "\<forall>blk \<in> set (stack stk). block_ok k blk \<and> initial_conv_padding blk = padding_h blk"
    using assms(1) by (auto simp: parallel_ready_def)
  from first_conv_parallel [of stk T xs] obtain y where
    y: "conv2d (first_conv stk) 2 1 2 (zero_in T) xs = Inr y"
    and r: "map (t_tanh T) (take (length y - 3) y) = first_rows T stk xs" by blast
  let ?rs = "first_rows T stk xs"
  have lr: "length cs = length ?rs" using assms(3) by (simp add: first_rows_def)
  let ?L = "stack_layers T k (stack stk) ?rs cs"
  have fb: "forward_blocks T k (stack stk) ?rs cs = Inr (map snd ?L)"
    by (rule forward_blocks_parallel [OF bl assms(2) lr])
  have "?L \<noteq> []" using ne by (cases "stack stk") auto
  then obtain s ss where sk: "map snd ?L = s # ss" by (cases ?L) auto
  have "\<forall>u \<in> set (map snd ?L). length u = length ?rs"
    using stack_layers_lengths [of _ _ T k "stack stk" ?rs cs] by auto
  then have "\<forall>u \<in> set ss. length u = length s" using sk by auto
  then have sm: "sum_from T s ss = Inr (sum_rows T s ss)" using sum_from_rows by blast
  have "ResidualStack_forward T k stk xs cs = Inr (last_convs T stk (sum_rows T s ss))"
    by (simp only: ResidualStack_forward_def p y bindE_Inr Let_def r fb sk sum_skips_def list.case sm)
  moreover have "coupling_rows T k stk xs cs = last_convs T stk (sum_rows T s ss)"
    by (simp only: coupling_rows_def Let_def sk list.sel)
  ultimately show ?thesis by simp
qed

lemma take_upt_min: "take n [0..<m] = [0..<min n m]"
  by (cases "n \<le> m") simp_all

lemma first_rows_take:
  "first_rows T stk (take n xs) = take n (first_rows T stk xs)"
proof -
  let ?z = "zero_in T"
  have "map (\<lambda>t. t_tanh T (first_conv stk [(replicate 2 ?z @ take n xs) ! t, (replicate 2 ?z @ take n xs) ! (t + 1)]))
          [0..<min (length xs) n]
      = map (\<lambda>t. t_tanh T (first_conv stk [(replicate 2 ?z @ xs) ! t, (replicate 2 ?z @ xs) ! (t + 1)]))
          [0..<min (length xs) n]"
  proof (rule map_cong [OF refl])
    fix t assume "t \<in> set [0..<min (length xs) n]"
    then have t: "t < n" by simp
    have a: "(replicate 2 ?z @ take n xs) ! t = (replicate 2 ?z @ xs) ! t"
      by (rule nth_append_take) (use t in simp)
    have b: "(replicate 2 ?z @ take n xs) ! (t + 1) = (replicate 2 ?z @ xs) ! (t + 1)"
      by (rule nth_append_take) (use t in simp)
    show "t_tanh T (first_conv stk [(replicate 2 ?z @ take n xs) ! t, (replicate 2 ?z @ take n xs) ! (t + 1)])
        = t_tanh T (first_conv stk [(replicate 2 ?z @ xs) ! t, (replicate 2 ?z @ xs) ! (t + 1)])"
      by (simp only: a b)
  qed
  then show ?thesis by (simp add: first_rows_def take_map take_upt_min min.commute)
qed

lemma block_window_take:
  assumes "t < n"
  shows "block_window T k blk (take n rs) t = block_window T k blk rs t"
proof -
  let ?m = "block_size k blk"
  let ?P = "replicate (?m - 1) (zero_res T)"
  have m: "0 < ?m" by (rule block_size_pos)
  have e: "?P @ take n rs = take (?m - 1 + n) (?P @ rs)" by simp
  have "take ?m (drop t (take (?m - 1 + n) (?P @ rs)))
      = take ?m (take (?m - 1 + n - t) (drop t (?P @ rs)))"
    by (simp only: drop_take)
  also have "\<dots> = take (min ?m (?m - 1 + n - t)) (drop t (?P @ rs))"
    by (simp only: take_take)
  also have "min ?m (?m - 1 + n - t) = ?m" using assms m by linarith
  finally show ?thesis by (simp only: block_window_def e)
qed

lemma block_rows_take:
  "block_rows T k blk (take n rs) (take n cs) = take n (block_rows T k blk rs cs)"
proof -
  have "map (\<lambda>t. block_row T k blk (block_window T k blk (take n rs) t) (take n cs ! t)) [0..<min n (length rs)]
      = map (\<lambda>t. block_row T k blk (block_window T k blk rs t) (cs ! t)) [0..<min n (length rs)]"
  proof (rule map_cong [OF refl])
    fix t assume "t \<in> set [0..<min n (length rs)]"
    then have t: "t < n" by simp
    show "block_row T k blk (block_window T k blk (take n rs) t) (take n cs ! t)
        = block_row T k blk (block_window T k blk rs t) (cs ! t)"
      using t by (simp add: block_window_take)
  qed
  then show ?thesis by (simp add: block_rows_def take_map take_upt_min min.commute)
qed

lemma stack_layers_take:
  "stack_layers T k blks (take n rs) (take n cs)
     = map (\<lambda>(R, S). (take n R, take n S)) (stack_layers T k blks rs cs)"
proof (induction blks arbitrary: rs)
  case Nil
  then show ?case by simp
next
  case (Cons blk blks)
  have "stack_layers T k blks (map fst (block_rows T k blk (take n rs) (take n cs))) (take n cs)
      = stack_layers T k blks (take n (map fst (block_rows T k blk rs cs))) (take n cs)"
    by (simp only: block_rows_take take_map)
  also have "\<dots> = map (\<lambda>(R, S). (take n R, take n S))
      (stack_layers T k blks (map fst (block_rows T k blk rs cs)) cs)"
    by (rule Cons.IH)
  finally show ?case by (simp add: block_rows_take take_map)
qed

lemma sum_rows_take:
  "sum_rows T (take n acc) (map (take n) ss) = take n (sum_rows T acc ss)"
proof (induction ss arbitrary: acc)
  case Nil
  then show ?case by simp
next
  case (Cons s ss)
  have "map2 (t_add T) (take n acc) (take n s) = take n (map2 (t_add T) acc s)"
    by (simp add: take_map take_zip)
  then show ?case using Cons.IH by simp
qed

lemma coupling_rows_take:
  assumes "stack stk \<noteq> []"
  shows "coupling_rows T k stk (take n xs) (take n cs) = take n (coupling_rows T k stk xs cs)"
proof -
  let ?L = "stack_layers T k (stack stk) (first_rows T stk xs) cs"
  have ne: "?L \<noteq> []" using assms by (cases "stack stk") auto
  then obtain s ss where sk: "map snd ?L = s # ss" by (cases ?L) auto
  have "map snd (stack_layers T k (stack stk) (first_rows T stk (take n xs)) (take n cs))
      = map (take n) (map snd ?L)"
    by (simp add: first_rows_take stack_layers_take split_def)
  then have t: "map snd (stack_layers T k (stack stk) (first_rows T stk (take n xs)) (take n cs))
      = take n s # map (take n) ss" using sk by simp
  have "coupling_rows T k stk (take n xs) (take n cs)
      = last_convs T stk (sum_rows T (take n s) (map (take n) ss))"
    by (simp only: coupling_rows_def Let_def t list.sel)
  also have "\<dots> = take n (last_convs T stk (sum_rows T s ss))"
    by (simp add: sum_rows_take last_convs_def take_map)
  also have "last_convs T stk (sum_rows T s ss) = coupling_rows T k stk xs cs"
    by (simp only: coupling_rows_def Let_def sk list.sel)
  finally show ?thesis .
qed

lemma length_first_rows [simp]: "length (first_rows T stk xs) = length xs"
  by (simp add: first_rows_def)

lemma length_coupling_rows:
  assumes "stack stk \<noteq> []"
  shows "length (coupling_rows T k stk xs cs) = length xs"
proof -
  let ?L = "stack_layers T k (stack stk) (first_rows T stk xs) cs"
  have ne: "?L \<noteq> []" using assms by (cases "stack stk") auto
  then obtain s ss where sk: "map snd ?L = s # ss" by (cases ?L) auto
  have a: "\<forall>u \<in> set (map snd ?L). length u = length xs"
    using stack_layers_lengths [of _ _ T k "stack stk" "first_rows T stk xs" cs] by auto
  then have s: "length s = length xs" using sk by auto
  have "\<forall>u \<in> set ss. length u = length s" using a sk by auto
  then have "length (sum_rows T s ss) = length s" using sum_from_rows by blast
  moreover have "coupling_rows T k stk xs cs = last_convs T stk (sum_rows T s ss)"
    by (simp only: coupling_rows_def Let_def sk list.sel)
  ultimately show ?thesis using s by (simp add: last_convs_def)
qed

lemma length_ideal_step [simp]: "length (ideal_step T k stk z c t) = length z"
  by (simp add: ideal_step_def Let_def)

lemma length_ideal_steps [simp]: "length (ideal_steps T k stk z c ts) = length z"
  by (induction ts arbitrary: z) simp_all

lemma flow_call_parallel:
  assumes "parallel_ready k stk" "2 \<le> k" "length cs = length xs"
  shows "flow_call T k stk xs cs = Inr (split_out T (coupling_rows T k stk xs cs))"
  by (simp add: flow_call_def ResidualStack_forward_parallel [OF assms])

lemma inverse_step_ideal:
  assumes r: "parallel_ready k stk" and k: "2 \<le> k" and len: "length c = length z" and t: "t < length z"
  shows "inverse_step T (flow_call T k stk) z c t = Inr (ideal_step T k stk z c t)"
proof -
  have ne: "stack stk \<noteq> []" using r by (simp add: parallel_ready_def)
  let ?O = "coupling_rows T k stk z c"
  have lo: "length ?O = length z" by (rule length_coupling_rows [OF ne])
  have "flow_call T k stk (take (t + 1) z) (take (t + 1) c)
      = Inr (split_out T (coupling_rows T k stk (take (t + 1) z) (take (t + 1) c)))"
    by (rule flow_call_parallel [OF r k]) (use len in simp)
  then have f: "flow_call T k stk (take (t + 1) z) (take (t + 1) c) = Inr (split_out T (take (t + 1) ?O))"
    by (simp only: coupling_rows_take [OF ne])
  have tk: "take (t + 1) ?O = take t ?O @ [?O ! t]"
    using t lo by (simp add: take_Suc_conv_app_nth)
  have m: "fst (split_out T (take (t + 1) ?O)) \<noteq> []" "snd (split_out T (take (t + 1) ?O)) \<noteq> []"
    "last (fst (split_out T (take (t + 1) ?O))) = fst (t_split_out T (?O ! t))"
    "last (snd (split_out T (take (t + 1) ?O))) = snd (t_split_out T (?O ! t))"
    unfolding tk by (simp_all add: split_out_def)
  show ?thesis
    unfolding inverse_step_def Let_def f bindE_Inr
    using m t by (simp add: split_def ideal_step_def Let_def)
qed

lemma inverse_steps_ideal:
  assumes r: "parallel_ready k stk" and k: "2 \<le> k"
  shows "length c = length z \<Longrightarrow> \<forall>t \<in> set ts. t < length z
     \<Longrightarrow> inverse_steps T (flow_call T k stk) z c ts = Inr (ideal_steps T k stk z c ts)"
proof (induction ts arbitrary: z)
  case Nil
  then show ?case by simp
next
  case (Cons t ts)
  have s: "inverse_step T (flow_call T k stk) z c t = Inr (ideal_step T k stk z c t)"
    by (rule inverse_step_ideal [OF r k]) (use Cons.prems in auto)
  have "inverse_steps T (flow_call T k stk) (ideal_step T k stk z c t) c ts
      = Inr (ideal_steps T k stk (ideal_step T k stk z c t) c ts)"
    by (rule Cons.IH) (use Cons.prems in auto)
  then show ?case using s by simp
qed

subsection \<open>The ring buffer\<close>

lemma window_length:
  "cursor ct \<le> length (tensor ct) \<Longrightarrow> length (window ct) = length (tensor ct)"
  by (simp add: window_def)



lemma recent_length: "length (recent m zero hist) = m"
  by (simp add: recent_def)




subsection \<open>Overwritten paddings do not change what a stack computes\<close>

lemma zero_pad_simps [simp]:
  "block_size k (zero_pad blk) = block_size k blk"
  "block_window T k (zero_pad blk) = block_window T k blk"
  "block_row T k (zero_pad blk) = block_row T k blk"
  "block_rows T k (zero_pad blk) = block_rows T k blk"
  "block_ok k (zero_pad blk) = block_ok k blk"
  "buffer_ok k (zero_pad blk) = buffer_ok k blk"
  by (auto simp: zero_pad_def block_size_def block_window_def block_row_def block_rows_def
      block_ok_def buffer_ok_def fun_eq_iff)

lemma stack_layers_zero_pad [simp]:
  "stack_layers T k (map zero_pad blks) rs cs = stack_layers T k blks rs cs"
  by (induction blks arbitrary: rs) simp_all

lemma caches_hold_zero_pad [simp]:
  "caches_hold T k (map zero_pad blks) rs cs t cts = caches_hold T k blks rs cs t cts"
proof (induction blks arbitrary: rs cts)
  case Nil
  then show ?case by simp
next
  case (Cons blk blks)
  then show ?case by (cases cts) simp_all
qed

lemma same_net_refl [simp]: "same_net a a"
  by (simp add: same_net_def)








lemma same_net_stack_empty:
  "same_net a b \<Longrightarrow> stack a = [] \<longleftrightarrow> stack b = []"
  by (metis same_net_def map_is_Nil_conv)

subsection \<open>The buffers follow the rows\<close>





lemma first_conv_stream:
  "conv2d f 2 1 0 zero [a, b] = Inr [f [a, b]]"
proof -
  have u: "[0..<2] = [0, Suc 0]" by (simp add: upt_conv_Cons)
  have "conv2d f 2 1 0 zero [a, b]
      = Inr (map (\<lambda>t. f (map (\<lambda>j. (replicate 0 zero @ [a, b] @ replicate 0 zero) ! (t + j * 1)) [0..<2]))
               [0..<length [a, b] + 2 * 0 - (2 - 1) * 1])"
    by (rule conv2d_rows) simp_all
  then show ?thesis by (simp add: u)
qed








lemma zero_pad_idem [simp]: "zero_pad (zero_pad blk) = zero_pad blk"
  by (simp add: zero_pad_def)





lemma apply_flip_length:
  "apply_flip p x = Inr y \<Longrightarrow> length y = length x"
  by (cases p) (auto simp: apply_flip_def full_flip_def half_flip_length)


lemma naive_flows_ideal:
  assumes k: "2 \<le> k"
  shows "\<forall>stk \<in> set stks. parallel_ready k stk \<Longrightarrow> h \<le> length z \<Longrightarrow> length c = length z
    \<Longrightarrow> synthesize_flows T h i (map (flow_call T k) stks) z c = ideal_flows T k h i stks z c"
proof (induction stks arbitrary: i z c)
  case Nil
  then show ?case by simp
next
  case (Cons stk stks)
  show ?case
  proof (cases "apply_flip (synthesize_flip i) z")
    case (Inl e)
    then show ?thesis by simp
  next
    case z1: (Inr z1)
    have lz: "length z1 = length z" by (rule apply_flip_length [OF z1])
    show ?thesis
    proof (cases "apply_flip (synthesize_flip i) c")
      case (Inl e)
      then show ?thesis using z1 by simp
    next
      case c1: (Inr c1)
      have lc: "length c1 = length c" by (rule apply_flip_length [OF c1])
      have r: "parallel_ready k stk" using Cons.prems(1) by simp
      have s: "inverse_steps T (flow_call T k stk) z1 c1 [0..<h] = Inr (ideal_steps T k stk z1 c1 [0..<h])"
        by (rule inverse_steps_ideal [OF r k]) (use Cons.prems lz lc in auto)
      have "synthesize_flows T h (Suc i) (map (flow_call T k) stks) (ideal_steps T k stk z1 c1 [0..<h]) c1
          = ideal_flows T k h (Suc i) stks (ideal_steps T k stk z1 c1 [0..<h]) c1"
        by (rule Cons.IH) (use Cons.prems lz lc in simp_all)
      then show ?thesis using z1 c1 s by simp
    qed
  qed
qed


subsection \<open>A freshly constructed model\<close>

lemma stack_dilations_nth:
  assumes "0 < c" "c \<le> 63" "i < n"
  shows "nat (stack_dilations c n ! i) = 2 ^ (i mod c)"
proof -
  have "stack_dilations c n ! i = 2 ^ (i mod c)"
    using assms by (simp add: stack_dilations_pow)
  then show ?thesis by (simp add: nat_power_eq)
qed

lemma ResidualStack_init_ready:
  assumes "0 < c" "c \<le> 63" "0 < n"
  shows "parallel_ready k (ResidualStack_init k c n W)"
    and "cached_ready k (ResidualStack_init k c n W)"
proof -
  let ?stk = "ResidualStack_init k c n W"
  have ne: "stack ?stk \<noteq> []" using assms(3) by (simp add: ResidualStack_init_def)
  have bl: "block_ok k blk \<and> initial_conv_padding blk = padding_h blk" if "blk \<in> set (stack ?stk)" for blk
  proof -
    from that obtain i where i: "i < n"
      and b: "blk = ResidualBlock_init k (nat (stack_dilations c n ! i))
          (w_initial_conv W i) (w_cdtconv W i) (w_resconv W i) (w_skipconv W i)"
      by (auto simp: ResidualStack_init_def)
    have d: "nat (stack_dilations c n ! i) = 2 ^ (i mod c)"
      by (rule stack_dilations_nth [OF assms(1,2) i])
    show ?thesis unfolding b d by (simp add: ResidualBlock_init_def block_ok_def Let_def)
  qed
  show "parallel_ready k ?stk"
    using ne bl by (simp add: parallel_ready_def) (simp add: ResidualStack_init_def)
  show "cached_ready k ?stk"
    using ne bl by (simp add: cached_ready_def) (simp add: ResidualStack_init_def)
qed





lemma synthesize_ideal:
  assumes r: "\<forall>stk \<in> set (flows M). parallel_ready k stk" and k: "2 \<le> k"
    and sq: "squeeze hp_h c = Inr g" and lg: "length (height_slices g) = hp_h"
    and ln: "length noise = hp_h"
  shows "synthesize T k hp_h M c noise temp
       = bindE (ideal_flows T k hp_h 0 (rev (flows M)) (map (t_scale T temp) noise) (height_slices g))
           unsqueeze"
proof -
  have rr: "\<forall>stk \<in> set (rev (flows M)). parallel_ready k stk" using r by simp
  have "synthesize_flows T hp_h 0 (map (flow_call T k) (rev (flows M))) (map (t_scale T temp) noise) (height_slices g)
      = ideal_flows T k hp_h 0 (rev (flows M)) (map (t_scale T temp) noise) (height_slices g)"
    by (rule naive_flows_ideal [OF k rr]) (use lg ln in simp_all)
  then show ?thesis by (simp add: synthesize_def sq Let_def rev_map)
qed



section \<open>The small model, evaluated\<close>

lemma silent_init: "WaveFlow_init 3 1 1 n silent_weights = Inr (silent_model n)"
  by (simp add: WaveFlow_init_def receptive_field_def silent_model_def silent_stack_def
      silent_weights_def map_replicate_trivial)

lemma coupling_rows_const:
  assumes "stack stk \<noteq> []" "last_conv2 stk = (\<lambda>s. v)"
  shows "coupling_rows T k stk xs cs = replicate (length xs) v"
proof -
  have "length (coupling_rows T k stk xs cs) = length xs"
    by (rule length_coupling_rows [OF assms(1)])
  moreover have "\<forall>s \<in> set (coupling_rows T k stk xs cs). s = v"
    by (auto simp: coupling_rows_def last_convs_def assms(2) Let_def)
  ultimately show ?thesis by (metis replicate_eqI)
qed

lemma silent_stack_rows:
  "coupling_rows T k silent_stack xs cs = replicate (length xs) [[[0], [0]]]"
  by (rule coupling_rows_const)
     (simp_all add: silent_stack_def ResidualStack_init_def silent_weights_def)

lemma silent_ready: "parallel_ready 3 silent_stack" "cached_ready 3 silent_stack"
  unfolding silent_stack_def by (rule ResidualStack_init_ready; simp)+

lemma half_flip_two: "half_flip [a, b] = Inr [a, b]"
  using half_flip_even [of "[a, b]"] by simp

lemma upt2: "[0..<2] = [0, Suc 0]"
  by (simp add: upt_conv_Cons)

lemma silent_steps:
  "ideal_steps unit_torch 3 silent_stack [[[[a]]], [[[b]]]] c [0..<2] = [[[[a]]], [[[b]]]]"
  by (simp add: upt2 ideal_step_def silent_stack_rows Let_def inv_affine_def unit_torch_def
      real_torch_def lift1_def lift2_def)

lemma squeeze_two:
  "squeeze 2 [[[a, b]]] = Inr [[[[a], [b]]]]"
proof -
  have s: "has_shape3 1 1 2 [[[a, b]]]" by (simp add: has_shape3_def)
  have u1: "[0..<Suc 0] = [0]" by simp
  show ?thesis using squeeze_ok [of 2 2 1 1, OF _ _ _ _ _ s] by (simp add: upt2)
qed

lemma height_slices_two:
  "height_slices [[[[a], [b]]]] = [[[[a]]], [[[b]]]]"
  by (simp add: height_slices_def upt2)

lemma unsqueeze_two:
  "unsqueeze [[[[a]]], [[[b]]]] = Inr [[a, b]]"
  by (simp add: unsqueeze_def)

lemma silent_flow_call:
  assumes "length cs = length xs"
  shows "flow_call unit_torch 3 silent_stack xs cs
       = Inr (replicate (length xs) [[[0]]], replicate (length xs) [[[0]]])"
proof -
  have "flow_call unit_torch 3 silent_stack xs cs
      = Inr (split_out unit_torch (coupling_rows unit_torch 3 silent_stack xs cs))"
    by (rule flow_call_parallel [OF silent_ready(1) _ assms]) simp
  then show ?thesis by (simp add: silent_stack_rows split_out_def unit_torch_def real_torch_def)
qed

lemma silent_flows_step:
  "ideal_flows unit_torch 3 2 i (silent_stack # stks) [[[[a]]], [[[b]]]] [[[[c]]], [[[d]]]]
     = (if 4 < i then ideal_flows unit_torch 3 2 (Suc i) stks [[[[b]]], [[[a]]]] [[[[d]]], [[[c]]]]
        else ideal_flows unit_torch 3 2 (Suc i) stks [[[[a]]], [[[b]]]] [[[[c]]], [[[d]]]])"
  by (simp add: apply_flip_def synthesize_flip_def half_flip_two full_flip_def silent_steps)

lemma replicate8: "replicate 8 x = [x, x, x, x, x, x, x, x]"
  by (simp add: eval_nat_numeral)

lemma silent_flows_synth:
  "ideal_flows unit_torch 3 2 0 (replicate 8 silent_stack) [[[[a]]], [[[b]]]] [[[[c]]], [[[d]]]]
     = Inr [[[[b]]], [[[a]]]]"
  unfolding replicate8 by (simp add: silent_flows_step del: ideal_flows.simps(2))

lemma silent_synthesize:
  "synthesize unit_torch 3 2 (silent_model 8) [[[0, 0]]] [[[[1]]], [[[2]]]] 1 = Inr [[2, 1]]"
proof -
  have r: "\<forall>stk \<in> set (flows (silent_model 8)). parallel_ready 3 stk"
    by (simp add: silent_model_def silent_ready)
  have sq: "squeeze 2 [[[0, 0 :: real]]] = Inr [[[[0], [0]]]]" by (rule squeeze_two)
  have lg: "length (height_slices [[[[0 :: real], [0]]]]) = 2" by (simp add: height_slices_two)
  have ln: "length [[[[1 :: real]]], [[[2]]]] = 2" by simp
  have k: "(2::nat) \<le> 3" by simp
  have z: "map (t_scale unit_torch 1) [[[[1]]], [[[2]]]] = [[[[1]]], [[[2]]]]"
    by (simp add: unit_torch_def real_torch_def lift1_def)
  have f: "rev (flows (silent_model 8)) = replicate 8 silent_stack"
    by (simp add: silent_model_def)
  show ?thesis
    by (simp only: synthesize_ideal [OF r k sq lg ln] z f height_slices_two silent_flows_synth
        bindE_Inr unsqueeze_two)
qed

lemma silent_forward_step:
  assumes "g = None \<or> g = Some ([[[[0]]], [[[0]]]], [[[[0]]], [[[0]]]])"
  shows "forward_step unit_torch i (flow_call unit_torch 3 silent_stack)
           ([[[[a]]], [[[b]]]], [[[[c]]], [[[d]]]], g)
       = Inr ((if i < 4 then [[[[b]]], [[[a]]]] else [[[[a]]], [[[b]]]],
               if i < 4 then [[[[d]]], [[[c]]]] else [[[[c]]], [[[d]]]],
               Some ([[[[0]]], [[[0]]]], [[[[0]]], [[[0]]]])),
              ([[[[0]]], [[[0]]]], [[[[0]]], [[[0]]]]))"
proof -
  have f: "flow_call unit_torch 3 silent_stack [[[[a]]], [[[b]]]] [[[[c]]], [[[d]]]]
      = Inr ([[[[0]]], [[[0]]]], [[[[0]]], [[[0]]]])"
    using silent_flow_call [of "[[[[c]]], [[[d]]]]" "[[[[a]]], [[[b]]]]"]
    by (simp add: numeral_2_eq_2)
  from assms show ?thesis
  proof
    assume "g = None"
    then show ?thesis
      unfolding forward_step_def prod.case f bindE_Inr
      by (simp add: Let_def unit_torch_def real_torch_def lift1_def lift2_def
          apply_flip_def forward_flip_def full_flip_def half_flip_two)
  next
    assume "g = Some ([[[[0]]], [[[0]]]], [[[[0]]], [[[0]]]])"
    then show ?thesis
      unfolding forward_step_def prod.case f bindE_Inr
      by (simp add: Let_def unit_torch_def real_torch_def lift1_def lift2_def
          apply_flip_def forward_flip_def full_flip_def half_flip_two)
  qed
qed

lemma silent_forward_loop:
  "forward_loop unit_torch 0 (replicate 8 (flow_call unit_torch 3 silent_stack))
       ([[[[a]]], [[[b]]]], [[[[c]]], [[[d]]]], None)
     = Inr (([[[[a]]], [[[b]]]], [[[[c]]], [[[d]]]], Some ([[[[0]]], [[[0]]]], [[[[0]]], [[[0]]]])),
            replicate 8 ([[[[0]]], [[[0]]]], [[[[0]]], [[[0]]]]))"
  unfolding replicate8 by (simp add: silent_forward_step)

lemma squeeze_signal_two: "squeeze_signal 2 [[a, b]] = Inr [[[[a], [b]]]]"
  by (simp add: squeeze_signal_def squeeze_two)

lemma silent_forward:
  "WaveFlow_forward unit_torch 3 2 (silent_model 8) [[2, 1]] [[[0, 0]]]
     = Inr ([[[[2]]], [[[1]]]], Some ([[[[0]]], [[[0]]]], [[[[0]]], [[[0]]]]))"
  by (simp add: WaveFlow_forward_def squeeze_signal_two squeeze_two height_slices_two
      forward_grid_def silent_model_def silent_forward_loop)

lemma silent_stack_fields:
  "first_conv silent_stack = (\<lambda>rows. [[[0]]])"
  "first_conv_padding silent_stack = 2"
  "stack silent_stack = [silent_block]"
  "last_conv1 silent_stack = (\<lambda>s. [[[0]]])"
  "last_conv2 silent_stack = (\<lambda>s. [[[0], [0]]])"
  "cache silent_stack = None"
  by (simp_all add: silent_stack_def ResidualStack_init_def silent_weights_def
      stack_dilations_def np_mod_def int64_wrap_def silent_block_def)

lemma unit_torch_fields:
  "zero_in unit_torch = [[[0]]]"
  "zero_res unit_torch = [[[0]]]"
  by (simp_all add: unit_torch_def real_torch_def)

lemma conv2d_stream3:
  "conv2d f 3 1 0 zero [p, q, r] = Inr [f [p, q, r]]"
proof -
  have u: "[0..<3] = [0, Suc 0, Suc (Suc 0)]" by (simp add: upt_conv_Cons)
  have "conv2d f 3 1 0 zero [p, q, r]
      = Inr (map (\<lambda>t. f (map (\<lambda>j. (replicate 0 zero @ [p, q, r] @ replicate 0 zero) ! (t + j * 1)) [0..<3]))
               [0..<length [p, q, r] + 2 * 0 - (3 - 1) * 1])"
    by (rule conv2d_rows) simp_all
  then show ?thesis by (simp add: u)
qed


lemma silent_block_incremental:
  assumes "blk = silent_block \<or> blk = zero_pad silent_block"
  shows "ResidualBlock_forward unit_torch 3 blk [p, q, [[[r]]]] [c] True
     = Inr (zero_pad silent_block, [[[[r]]]], [[[[0]]]])"
proof -
  have c: "conv2d (\<lambda>rows. [[[0], [0]]]) 3 1 0 z [p, q, [[[r]]]] = Inr [[[[0], [0]]]]" for z :: "real list list list"
    by (rule conv2d_stream3)
  show ?thesis
    using assms
    by (auto simp: ResidualBlock_forward_def silent_block_def ResidualBlock_init_def Let_def
        c [unfolded One_nat_def] c zero_pad_def
        last_row_def unit_torch_def real_torch_def lift1_def lift2_def)
qed

lemma rep2: "replicate 2 x = [x, x]"
  by (simp add: numeral_2_eq_2)


lemma prepare_used:
  "prepare_cache unit_torch 3 (cached_stack blk k) = cached_stack blk k"
  by (simp add: prepare_cache_def cached_stack_def unit_torch_fields)

lemma window3:
  assumes "k < 3"
  shows "window \<lparr> tensor = [z, z, z], cursor = k \<rparr> = [z, z, z]"
proof -
  from assms consider "k = 0" | "k = 1" | "k = 2" by linarith
  then show ?thesis
    by cases (simp_all add: window_def)
qed

lemma set_current3:
  assumes "k < 3"
  shows "set_current \<lparr> tensor = [z, z, z], cursor = k \<rparr> z
      = \<lparr> tensor = [z, z, z], cursor = Suc k mod 3 \<rparr>"
proof -
  from assms consider "k = 0" | "k = 1" | "k = 2" by linarith
  then show ?thesis
    by cases (simp_all add: set_current_def)
qed

lemma silent_ar_blocks:
  assumes "blk = silent_block \<or> blk = zero_pad silent_block" "k < 3"
  shows "ar_blocks unit_torch 3 [blk] [\<lparr> tensor = [[[[0]]], [[[0]]], [[[0]]]], cursor = k \<rparr>] [[[[0]]]] [c]
     = Inr ([zero_pad silent_block],
            [\<lparr> tensor = [[[[0]]], [[[0]]], [[[0]]]], cursor = Suc k mod 3 \<rparr>], [[[[[0]]]]])"
proof -
  have w: "window \<lparr> tensor = [[[[0::real]]], [[[0]]], [[[0]]]], cursor = Suc k mod 3 \<rparr>
      = [[[[0]]], [[[0]]], [[[0]]]]"
    by (rule window3) simp
  have b: "ResidualBlock_forward unit_torch 3 blk [[[[0]]], [[[0]]], [[[0]]]] [c] True
     = Inr (zero_pad silent_block, [[[[0]]]], [[[[0]]]])"
    by (rule silent_block_incremental [OF assms(1)])
  show ?thesis
    unfolding ar_blocks.simps by (simp add: Let_def set_current3 [OF assms(2)] w b)
qed

lemma silent_ar_step:
  assumes "blk = silent_block \<or> blk = zero_pad silent_block" "k < 3" "step < 2"
  shows "ar_step unit_torch 3 (cached_stack blk k) [z0, z1, [[[a]]], [[[b]]]] [[[[c]]], [[[d]]]] step
     = Inr (cached_stack (zero_pad silent_block) (Suc k mod 3), [z0, z1, [[[a]]], [[[b]]]])"
proof -
  have f: "first_conv (cached_stack blk k) = (\<lambda>rows. [[[0]]])"
      "first_conv_padding (cached_stack blk k) = 0"
      "stack (cached_stack blk k) = [blk]"
      "cache (cached_stack blk k) = Some [\<lparr> tensor = [[[[0]]], [[[0]]], [[[0]]]], cursor = k \<rparr>]"
      "last_conv1 (cached_stack blk k) = (\<lambda>s. [[[0]]])"
      "last_conv2 (cached_stack blk k) = (\<lambda>s. [[[0], [0]]])"
    by (simp_all add: cached_stack_def silent_stack_fields)
  have u: "cached_stack blk k\<lparr>stack := [zero_pad silent_block],
             cache := Some [\<lparr> tensor = [[[[0]]], [[[0]]], [[[0]]]], cursor = Suc k mod 3 \<rparr>]\<rparr>
         = cached_stack (zero_pad silent_block) (Suc k mod 3)"
    by (simp add: cached_stack_def)
  have t: "t_tanh unit_torch [[[0]]] = [[[0]]]"
    by (simp add: unit_torch_def real_torch_def lift1_def)
  have l: "split_out unit_torch (last_convs unit_torch (cached_stack blk k) x)
         = (map (\<lambda>s. [[[0]]]) x, map (\<lambda>s. [[[0]]]) x)" for x
    by (simp add: split_out_def last_convs_def f unit_torch_def real_torch_def)
  have i: "inv_affine unit_torch [[[v]]] [[[0]]] [[[0]]] = [[[v]]]" for v
    by (simp add: inv_affine_def unit_torch_def real_torch_def lift1_def lift2_def)
  have cv: "conv2d (\<lambda>rows. [[[0]]]) 2 1 0 z [p, q] = Inr [[[[0::real]]]]" for z p q :: "real list list list"
    by (rule first_conv_stream)
  from assms(3) consider "step = 0" | "step = 1" by linarith
  then show ?thesis
  proof cases
    case 1
    show ?thesis
      unfolding ar_step_def f 1
      by (simp add: Let_def cv [unfolded One_nat_def] t silent_ar_blocks [OF assms(1,2)] sum_skips_def l i u
          del: ar_blocks.simps)
  next
    case 2
    show ?thesis
      unfolding ar_step_def f 2
      by (simp add: Let_def cv [unfolded One_nat_def] t silent_ar_blocks [OF assms(1,2)] sum_skips_def l i u
          del: ar_blocks.simps)
  qed
qed

lemma silent_ar_steps:
  assumes "blk = silent_block \<or> blk = zero_pad silent_block" "k < 3"
  shows "ar_steps unit_torch 3 (cached_stack blk k) [[[[0]]], [[[0]]], [[[a]]], [[[b]]]]
           [[[[c]]], [[[d]]]] [0, Suc 0]
     = Inr (cached_stack (zero_pad silent_block) (Suc (Suc k) mod 3), [[[[0]]], [[[0]]], [[[a]]], [[[b]]]])"
proof -
  have m: "Suc k mod 3 < 3" by simp
  have e: "Suc (Suc k mod 3) mod 3 = Suc (Suc k) mod 3" by presburger
  show ?thesis
    unfolding ar_steps.simps
    by (simp add: silent_ar_step [OF assms] silent_ar_step [OF disjI2 [OF refl] m] e)
qed


lemma arTransform_used:
  "arTransform unit_torch 3 2 (cached_stack (zero_pad silent_block) 2) [[[[a]]], [[[b]]]] [[[[c]]], [[[d]]]]
     = Inr (cached_stack (zero_pad silent_block) 1, [[[[a]]], [[[b]]]])"
  unfolding arTransform_def prepare_used Let_def upt2 unit_torch_fields rep2
  by (simp add: silent_ar_steps [OF disjI2 [OF refl]] del: ar_steps.simps)


lemma silent_fast_second:
  "synthesize_fast unit_torch 3 2 used_model [[[c, d]]] [[[[a]]], [[[b]]]] 1
     = Inr (\<lparr> flows = [cached_stack (zero_pad silent_block) 1], receptive_field_attr = 3 \<rparr>, [[a, b]])"
proof -
  have z: "map (t_scale unit_torch 1) [[[[a]]], [[[b]]]] = [[[[a]]], [[[b]]]]"
    by (simp add: unit_torch_def real_torch_def lift1_def)
  have f: "rev (flows used_model) = [cached_stack (zero_pad silent_block) 2]"
    by (simp add: used_model_def)
  show ?thesis
    unfolding synthesize_fast_def squeeze_two bindE_Inr Let_def z f height_slices_two
    by (simp add: apply_flip_def synthesize_flip_def half_flip_two arTransform_used
        unsqueeze_two used_model_def)
qed


lemma mean_forward_loop:
  "forward_loop (real_torch 1 1 1 1) 0 [conditioning_mean 0, conditioning_mean 0]
       ([[[[10]]], [[[20]]]], [[[[1]]], [[[0]]]], None)
     = Inr (([[[[12]]], [[[20]]]], [[[[1]]], [[[0]]]], Some ([[[[1]]], [[[1]]]], [[[[0]]], [[[0]]]])),
            [([[[[1]]], [[[0]]]], [[[[0]]], [[[0]]]]), ([[[[0]]], [[[1]]]], [[[[0]]], [[[0]]]])])"
  by (simp add: forward_step_def conditioning_mean_def Let_def real_torch_def lift1_def lift2_def
      apply_flip_def forward_flip_def full_flip_def)

lemma silent_forward_one:
  "forward_grid unit_torch (map (flow_call unit_torch 3) (flows (silent_model 1)))
       [[[[a]]], [[[b]]]] [[[[c]]], [[[d]]]]
     = Inr ([[[[b]]], [[[a]]]], Some ([[[[0]]], [[[0]]]], [[[[0]]], [[[0]]]]))"
  by (simp add: forward_grid_def silent_model_def silent_forward_step)

lemma affine_zero:
  "affine_map unit_torch ([[[[0]]], [[[0]]]], [[[[0]]], [[[0]]]]) [[[[a]]], [[[b]]]]
     = Inr [[[[a]]], [[[b]]]]"
  by (simp add: affine_map_def unit_torch_def real_torch_def lift1_def lift2_def)

text \<open>
  C2 fails on a freshly constructed model of eight flows all of whose weights are zero,
  at squeezed height two: its flows leave the signal as it is, so only the
  permutations act. From the base noise rows 1, 2 \<^verbatim>\<open>synthesize\<close> returns the signal
  2, 1 (the three full reversals at positions 5, 6, 7), and \<^verbatim>\<open>forward\<close> maps that signal
  to the rows 2, 1 (four full reversals, then four half reversals of single rows), not
  back to the base noise.
\<close>

theorem forward_of_synthesize_differs:
  "WaveFlow_init 3 1 1 8 silent_weights = Inr (silent_model 8) \<and>
   synthesize unit_torch 3 2 (silent_model 8) [[[0, 0]]] [[[[1]]], [[[2]]]] 1 = Inr [[2, 1]] \<and>
   WaveFlow_forward unit_torch 3 2 (silent_model 8) [[2, 1]] [[[0, 0]]]
     = Inr ([[[[2]]], [[[1]]]], Some ([[[[0]]], [[[0]]]], [[[[0]]], [[[0]]]]))"
  by (simp only: silent_init silent_synthesize silent_forward simp_thms)


text \<open>
  The running pair of C4 on two flows that return the conditioning as mean: the two
  affine maps applied in turn to the rows 10, 20 give what the pair gives.
\<close>

theorem global_pair_composes_witness:
  "compose_affine (real_torch 1 1 1 1)
       [([[[[1]]], [[[0]]]], [[[[0]]], [[[0]]]]), ([[[[0]]], [[[1]]]], [[[[0]]], [[[0]]]])]
       [[[[10]]], [[[20]]]]
     = affine_map (real_torch 1 1 1 1) ([[[[1]]], [[[1]]]], [[[[0]]], [[[0]]]]) [[[[10]]], [[[20]]]]"
  using global_pair_composes [of 1 1 1 1 "[conditioning_mean 0, conditioning_mean 0]"
      "[[[[10]]], [[[20]]]]" "[[[[1]]], [[[0]]]]" "[[[[12]]], [[[20]]]]" "[[[[1]]], [[[0]]]]"
      "Some ([[[[1]]], [[[1]]]], [[[[0]]], [[[0]]]])"
      "[([[[[1]]], [[[0]]]], [[[[0]]], [[[0]]]]), ([[[[0]]], [[[1]]]], [[[[0]]], [[[0]]]])]"
      "[[[[10]]], [[[20]]]]"]
    mean_forward_loop
  by auto

text \<open>
  C4 as stated fails after one flow of the small model: the signal is the input with
  its rows reversed, 2, 1, while the pair is zero and maps the input 1, 2 to itself.
\<close>

theorem global_pair_signal_counterexample:
  "forward_grid unit_torch (map (flow_call unit_torch 3) (flows (silent_model 1)))
       [[[[1]]], [[[2]]]] [[[[0]]], [[[0]]]]
     = Inr ([[[[2]]], [[[1]]]], Some ([[[[0]]], [[[0]]]], [[[[0]]], [[[0]]]])) \<and>
   affine_map unit_torch ([[[[0]]], [[[0]]]], [[[[0]]], [[[0]]]]) [[[[1]]], [[[2]]]]
     = Inr [[[[1]]], [[[2]]]]"
  by (simp only: silent_forward_one affine_zero simp_thms)



end
